theory Spec2Isabelle
  imports Main
begin

section \<open>Strings: the library functions used by \<open>reName\<close>\<close>

text \<open>
  A Go string is a sequence of bytes, modelled as \<open>string\<close> (one \<open>char\<close> per byte).
  \<open>strings.HasSuffix\<close> and \<open>strings.TrimSuffix\<close> work on bytes.
\<close>

definition HasSuffix :: "string \<Rightarrow> string \<Rightarrow> bool" where
  "HasSuffix s suffix \<longleftrightarrow>
     length suffix \<le> length s \<and> drop (length s - length suffix) s = suffix"

definition TrimSuffix :: "string \<Rightarrow> string \<Rightarrow> string" where
  "TrimSuffix s suffix =
     (if HasSuffix s suffix then take (length s - length suffix) s else s)"

text \<open>
  The regular expression \<open>[^a-zA-Z0-9]\<close> matches exactly one rune that is not an ASCII
  letter or digit. The regexp package reads its input rune by rune: a byte below 0x80 is
  a rune of width 1, anything else goes through \<open>utf8.DecodeRuneInString\<close>, which
  consumes a well-formed UTF-8 sequence of 2 to 4 bytes, or a single byte when the
  sequence is malformed (the rune is then U+FFFD). \<open>rune_width\<close> is the number of bytes
  the rune at the head of a non-empty string takes.
\<close>

definition byte_in :: "nat \<Rightarrow> nat \<Rightarrow> char \<Rightarrow> bool" where
  "byte_in lo hi c \<longleftrightarrow> lo \<le> (of_char c :: nat) \<and> (of_char c :: nat) \<le> hi"

definition is_alnum :: "char \<Rightarrow> bool" where
  "is_alnum c \<longleftrightarrow>
     byte_in 97 122 c \<or> byte_in 65 90 c \<or> byte_in 48 57 c"

text \<open>Size of the sequence announced by a leading byte (0 for an invalid leading byte)
  and the range accepted for the second byte, after the tables \<open>first\<close> and
  \<open>acceptRanges\<close> of package utf8.\<close>

definition lead_size :: "char \<Rightarrow> nat" where
  "lead_size c =
     (if byte_in 194 223 c then 2
      else if byte_in 224 239 c then 3
      else if byte_in 240 244 c then 4
      else 0)"

definition second_ok :: "char \<Rightarrow> char \<Rightarrow> bool" where
  "second_ok c b =
     (if (of_char c :: nat) = 224 then byte_in 160 191 b
      else if (of_char c :: nat) = 237 then byte_in 128 159 b
      else if (of_char c :: nat) = 240 then byte_in 144 191 b
      else if (of_char c :: nat) = 244 then byte_in 128 143 b
      else byte_in 128 191 b)"

fun rune_width :: "string \<Rightarrow> nat" where
  "rune_width [] = 0"
| "rune_width (c # cs) =
     (if (of_char c :: nat) < 128 then 1
      else if lead_size c = 0 then 1
      else if length cs < lead_size c - 1 then 1
      else if \<not> second_ok c (hd cs) then 1
      else if lead_size c \<le> 2 then 2
      else if \<not> byte_in 128 191 (cs ! 1) then 1
      else if lead_size c \<le> 3 then 3
      else if \<not> byte_in 128 191 (cs ! 2) then 1
      else 4)"

text \<open>
  \<open>re.ReplaceAllString(s, "-")\<close> for the expression above: every rune outside
  \<open>[a-zA-Z0-9]\<close> becomes one \<open>-\<close>; the expression has no repetition operator, so two
  adjacent such runes give two separators.
\<close>

function ReplaceAllString :: "string \<Rightarrow> string" where
  "ReplaceAllString [] = []"
| "ReplaceAllString (c # cs) =
     (if is_alnum c then c # ReplaceAllString cs
      else CHR ''-'' # ReplaceAllString (drop (rune_width (c # cs) - 1) cs))"
  by pat_completeness auto
termination
  by (relation "measure length") (simp_all del: rune_width.simps)

text \<open>
  \<open>strings.ToLower\<close> on a string of ASCII bytes adds \<open>'a' - 'A'\<close> to every byte in
  \<open>'A'..'Z'\<close>. \<open>reName\<close> calls it on the result of \<open>ReplaceAllString\<close>, which holds
  ASCII letters, digits and \<open>-\<close> only (lemma \<open>ReplaceAllString_ascii\<close>).
\<close>

definition lower_byte :: "char \<Rightarrow> char" where
  "lower_byte c = (if byte_in 65 90 c then char_of ((of_char c :: nat) + 32) else c)"

definition ToLower :: "string \<Rightarrow> string" where
  "ToLower s = map lower_byte s"

section \<open>The name normalizer\<close>

definition reName :: "string \<Rightarrow> string" where
  "reName name =
     (let nameTrimmed = TrimSuffix name ''.pem'';
          nameTrimmed = TrimSuffix nameTrimmed ''.crt''
      in ToLower (ReplaceAllString nameTrimmed))"

section \<open>The cluster client\<close>

text \<open>
  The controller talks to the cluster through the controller-runtime client
  (\<open>Get\<close>, \<open>List\<close>, \<open>Create\<close>, \<open>Update\<close>, \<open>Delete\<close>). The client is an interface
  of the platform; it is modelled as a store of ConfigMaps, a trace of the calls made so
  far, and a schedule of injected failures: the n-th pending entry says whether the n-th
  coming call fails with a genuine error (transport, permission, server) before it
  reaches the store; an exhausted schedule injects nothing. \<open>NotFound\<close> and
  \<open>AlreadyExists\<close> come from the store alone. Every call, failed or not, is appended
  to the trace.
\<close>

record ConfigMap =
  Name :: string
  Namespace :: string
  Labels :: "string \<rightharpoonup> string"
  Data :: "string \<rightharpoonup> string"

datatype api_error = NotFound | AlreadyExists | Failure string

datatype api_call =
    GetCall string string
  | ListCall string string string
  | CreateCall string string
  | UpdateCall string string
  | DeleteCall string string

record cluster =
  objects :: "ConfigMap list"
  calls :: "api_call list"
  faults :: "string option list"

definition has_key :: "string \<Rightarrow> string \<Rightarrow> ConfigMap \<Rightarrow> bool" where
  "has_key ns name cm \<longleftrightarrow> Namespace cm = ns \<and> Name cm = name"

definition next_fault :: "cluster \<Rightarrow> string option" where
  "next_fault c = (case faults c of [] \<Rightarrow> None | f # fs \<Rightarrow> f)"

definition logged :: "api_call \<Rightarrow> cluster \<Rightarrow> cluster" where
  "logged call c = c\<lparr>calls := calls c @ [call], faults := tl (faults c)\<rparr>"

definition attempt :: "api_call \<Rightarrow> cluster \<Rightarrow> string option \<times> cluster" where
  "attempt call c = (next_fault c, logged call c)"

definition client_Get :: "string \<Rightarrow> string \<Rightarrow> cluster \<Rightarrow> (api_error + ConfigMap) \<times> cluster" where
  "client_Get ns name c =
     (case attempt (GetCall ns name) c of
        (Some msg, c') \<Rightarrow> (Inl (Failure msg), c')
      | (None, c') \<Rightarrow>
          (case find (has_key ns name) (objects c') of
             None \<Rightarrow> (Inl NotFound, c')
           | Some cm \<Rightarrow> (Inr cm, c')))"

definition client_List ::
  "string \<Rightarrow> string \<Rightarrow> string \<Rightarrow> cluster \<Rightarrow> (api_error + ConfigMap list) \<times> cluster" where
  "client_List ns lkey lval c =
     (case attempt (ListCall ns lkey lval) c of
        (Some msg, c') \<Rightarrow> (Inl (Failure msg), c')
      | (None, c') \<Rightarrow>
          (Inr (filter (\<lambda>cm. Namespace cm = ns \<and> Labels cm lkey = Some lval) (objects c')), c'))"

definition client_Create :: "ConfigMap \<Rightarrow> cluster \<Rightarrow> api_error option \<times> cluster" where
  "client_Create cm c =
     (case attempt (CreateCall (Namespace cm) (Name cm)) c of
        (Some msg, c') \<Rightarrow> (Some (Failure msg), c')
      | (None, c') \<Rightarrow>
          (if find (has_key (Namespace cm) (Name cm)) (objects c') \<noteq> None
           then (Some AlreadyExists, c')
           else (None, c'\<lparr>objects := objects c' @ [cm]\<rparr>)))"

definition client_Update :: "ConfigMap \<Rightarrow> cluster \<Rightarrow> api_error option \<times> cluster" where
  "client_Update cm c =
     (case attempt (UpdateCall (Namespace cm) (Name cm)) c of
        (Some msg, c') \<Rightarrow> (Some (Failure msg), c')
      | (None, c') \<Rightarrow>
          (if find (has_key (Namespace cm) (Name cm)) (objects c') = None
           then (Some NotFound, c')
           else (None, c'\<lparr>objects :=
                   map (\<lambda>x. if has_key (Namespace cm) (Name cm) x then cm else x) (objects c')\<rparr>)))"

definition client_Delete :: "ConfigMap \<Rightarrow> cluster \<Rightarrow> api_error option \<times> cluster" where
  "client_Delete cm c =
     (case attempt (DeleteCall (Namespace cm) (Name cm)) c of
        (Some msg, c') \<Rightarrow> (Some (Failure msg), c')
      | (None, c') \<Rightarrow>
          (if find (has_key (Namespace cm) (Name cm)) (objects c') = None
           then (Some NotFound, c')
           else (None, c'\<lparr>objects :=
                   filter (\<lambda>x. \<not> has_key (Namespace cm) (Name cm) x) (objects c')\<rparr>)))"

definition IgnoreNotFound :: "api_error option \<Rightarrow> api_error option" where
  "IgnoreNotFound err = (if err = Some NotFound then None else err)"

section \<open>The controller\<close>

text \<open>
  The data and the labels of a ConfigMap are Go maps, modelled as partial functions; a
  nil map and an empty map both answer every lookup with nothing, so the allocation
  \<open>cm.Data = make(map[string]string)\<close> of the update branch leaves no trace in the
  model. \<open>string(bundle.Content)\<close> keeps the bytes as they are.
\<close>

definition CAKey :: string where
  "CAKey = ''ca.crt''"

record PEMFile =
  Filename :: string
  Content :: string

record CABundleReconciler =
  TargetNamespace :: string

definition checkConfigMap :: "CABundleReconciler \<Rightarrow> PEMFile \<Rightarrow> cluster \<Rightarrow> bool \<times> cluster" where
  "checkConfigMap r bundle c =
     (let cmName = reName (Filename bundle) in
      case client_Get (TargetNamespace r) cmName c of
        (Inl err, c') \<Rightarrow> (False, c')
      | (Inr cm, c') \<Rightarrow> (Data cm (Filename bundle) = Some (Content bundle), c'))"

definition createOrUpdateConfigMap ::
  "CABundleReconciler \<Rightarrow> PEMFile \<Rightarrow> cluster \<Rightarrow> api_error option \<times> cluster" where
  "createOrUpdateConfigMap r bundle c =
     (let cmName = reName (Filename bundle) in
      case client_Get (TargetNamespace r) cmName c of
        (Inl NotFound, c') \<Rightarrow>
          client_Create \<lparr>Name = cmName, Namespace = TargetNamespace r,
                         Labels = [''app'' \<mapsto> ''cabundle-operator''],
                         Data = [CAKey \<mapsto> Content bundle]\<rparr> c'
      | (Inl err, c') \<Rightarrow> (Some err, c')
      | (Inr cm, c') \<Rightarrow> client_Update (cm\<lparr>Data := (Data cm)(CAKey \<mapsto> Content bundle)\<rparr>) c')"

definition GetBundleConfigMaps ::
  "CABundleReconciler \<Rightarrow> cluster \<Rightarrow> (api_error + string list) \<times> cluster" where
  "GetBundleConfigMaps r c =
     (case client_List (TargetNamespace r) ''app'' ''cabundle-operator'' c of
        (Inl err, c') \<Rightarrow> (Inl err, c')
      | (Inr items, c') \<Rightarrow> (Inr (map Name items), c'))"

definition DeleteBundleConfigMap ::
  "CABundleReconciler \<Rightarrow> string \<Rightarrow> cluster \<Rightarrow> api_error option \<times> cluster" where
  "DeleteBundleConfigMap r name c =
     (case client_Get (TargetNamespace r) name c of
        (Inl err, c') \<Rightarrow> (IgnoreNotFound (Some err), c')
      | (Inr cm, c') \<Rightarrow> client_Delete cm c')"

text \<open>
  \<open>CleanUpConfigMaps\<close> builds the Go map \<open>existingBundles\<close> in two loops and ranges
  over it in a third. The order in which Go ranges over a map is not specified: the
  parameter \<open>range_order\<close> gives, for the keys of the map, the order of one run.
\<close>

definition mark_listed :: "string list \<Rightarrow> (string \<rightharpoonup> bool)" where
  "mark_listed bundleCMNames = foldl (\<lambda>m b. m(b \<mapsto> False)) Map.empty bundleCMNames"

definition mark_fetched :: "(string \<rightharpoonup> bool) \<Rightarrow> PEMFile list \<Rightarrow> (string \<rightharpoonup> bool)" where
  "mark_fetched existingBundles bundles =
     foldl (\<lambda>m b. let cmName = reName (Filename b) in
                   if m cmName \<noteq> None then m(cmName \<mapsto> True) else m)
           existingBundles bundles"

fun delete_stale ::
  "CABundleReconciler \<Rightarrow> (string \<rightharpoonup> bool) \<Rightarrow> string list \<Rightarrow> cluster \<Rightarrow> api_error option \<times> cluster" where
  "delete_stale r existingBundles [] c = (None, c)"
| "delete_stale r existingBundles (cmName # rest) c =
     (if existingBundles cmName = Some False then
        (case DeleteBundleConfigMap r cmName c of
           (Some err, c') \<Rightarrow> (Some err, c')
         | (None, c') \<Rightarrow> delete_stale r existingBundles rest c')
      else delete_stale r existingBundles rest c)"

definition CleanUpConfigMaps ::
  "(string list \<Rightarrow> string list) \<Rightarrow> CABundleReconciler \<Rightarrow> PEMFile list \<Rightarrow> cluster
     \<Rightarrow> api_error option \<times> cluster" where
  "CleanUpConfigMaps range_order r bundles c =
     (case GetBundleConfigMaps r c of
        (Inl err, c') \<Rightarrow> (Some err, c')
      | (Inr bundleCMNames, c') \<Rightarrow>
          (let existingBundles = mark_fetched (mark_listed bundleCMNames) bundles
           in delete_stale r existingBundles (range_order (remdups bundleCMNames)) c'))"

text \<open>The loop over the fetched bundles in \<open>Reconcile\<close> (the specification's
  \<open>converge\<close>): a bundle whose check succeeds is skipped, the first failing
  \<open>createOrUpdateConfigMap\<close> ends the cycle with its error.\<close>

fun converge :: "CABundleReconciler \<Rightarrow> PEMFile list \<Rightarrow> cluster \<Rightarrow> api_error option \<times> cluster" where
  "converge r [] c = (None, c)"
| "converge r (b # bundles) c =
     (case checkConfigMap r b c of
        (True, c') \<Rightarrow> converge r bundles c'
      | (False, c') \<Rightarrow>
          (case createOrUpdateConfigMap r b c' of
             (Some err, c'') \<Rightarrow> (Some err, c'')
           | (None, c'') \<Rightarrow> converge r bundles c''))"

section \<open>The source fetcher\<close>

text \<open>
  \<open>DownloadPEMBundles\<close> reads a directory listing over HTTP, parses it with
  \<open>html.Parse\<close>, collects the \<open>href\<close> values of the anchors that end in \<open>.pem\<close> or
  \<open>.crt\<close>, and downloads each of them. The network and the parser are the
  environment: \<open>Do env n url\<close> is the outcome of the n-th request of the cycle, a GET
  of \<open>url\<close> (a transport error, or a response whose body can be read or fails while
  being read); \<open>Parse\<close> is \<open>html.Parse\<close> on a body that could be read;
  \<open>NewRequest_err\<close> is the error of \<open>http.NewRequestWithContext\<close> for the base
  location; \<open>JoinPath\<close> is \<open>url.JoinPath\<close>. The errors of \<open>url.JoinPath\<close> and of
  the per-file \<open>http.NewRequestWithContext\<close> are discarded by the code.
\<close>

datatype NodeType =
  ErrorNode | TextNode | DocumentNode | ElementNode | CommentNode | DoctypeNode | RawNode

record Attribute =
  Key :: string
  Val :: string

datatype Node = Node NodeType string "Attribute list" "Node list"

record Response =
  StatusCode :: nat
  Status :: string
  Body :: "string + string"

record http_env =
  NewRequest_err :: "string \<Rightarrow> string option"
  Do :: "nat \<Rightarrow> string \<Rightarrow> string + Response"
  Parse :: "string \<Rightarrow> string + Node"
  JoinPath :: "string \<Rightarrow> string \<Rightarrow> string"

datatype fetch_error =
    RequestError string
  | TransportError string
  | StatusError string
  | ParseError string
  | ReadError string

fun walk :: "Node \<Rightarrow> string list" where
  "walk (Node t d attrs children) =
     (if t = ElementNode \<and> d = ''a''
      then map Val (filter (\<lambda>a. Key a = ''href'' \<and>
                                  (HasSuffix (Val a) ''.pem'' \<or> HasSuffix (Val a) ''.crt'')) attrs)
      else [])
     @ concat (map walk children)"

fun download_files ::
  "http_env \<Rightarrow> string \<Rightarrow> nat \<Rightarrow> string list \<Rightarrow> PEMFile list \<Rightarrow> fetch_error + PEMFile list" where
  "download_files env baseURL n [] results = Inr results"
| "download_files env baseURL n (name # rest) results =
     (case Do env n (JoinPath env baseURL name) of
        Inl err \<Rightarrow> Inl (TransportError err)
      | Inr r \<Rightarrow>
          (case Body r of
             Inl err \<Rightarrow> Inl (ReadError err)
           | Inr data \<Rightarrow>
               download_files env baseURL (Suc n) rest
                 (results @ [\<lparr>Filename = name, Content = data\<rparr>])))"

definition DownloadPEMBundles :: "http_env \<Rightarrow> string \<Rightarrow> fetch_error + PEMFile list" where
  "DownloadPEMBundles env baseURL =
     (case NewRequest_err env baseURL of
        Some err \<Rightarrow> Inl (RequestError err)
      | None \<Rightarrow>
          (case Do env 0 baseURL of
             Inl err \<Rightarrow> Inl (TransportError err)
           | Inr resp \<Rightarrow>
               if StatusCode resp \<noteq> 200
               then Inl (StatusError (''failed to list bundles: '' @ Status resp))
               else (case Body resp of
                       Inl err \<Rightarrow> Inl (ParseError err)
                     | Inr text \<Rightarrow>
                         (case Parse env text of
                            Inl err \<Rightarrow> Inl (ParseError err)
                          | Inr doc \<Rightarrow> download_files env baseURL 1 (walk doc) []))))"

section \<open>One cycle\<close>

datatype reconcile_error = ClusterError api_error | FetchError fetch_error

definition lift_err :: "api_error option \<Rightarrow> reconcile_error option" where
  "lift_err err = map_option ClusterError err"

definition Reconcile ::
  "http_env \<Rightarrow> (string list \<Rightarrow> string list) \<Rightarrow> CABundleReconciler \<Rightarrow> string \<Rightarrow> string
     \<Rightarrow> cluster \<Rightarrow> reconcile_error option \<times> cluster" where
  "Reconcile env range_order r req_namespace req_name c =
     (case client_Get req_namespace req_name c of
        (Inl err, c1) \<Rightarrow> (lift_err (IgnoreNotFound (Some err)), c1)
      | (Inr cm, c1) \<Rightarrow>
          (case Data cm ''bundle_url'' of
             None \<Rightarrow> (None, c1)
           | Some baseUrl \<Rightarrow>
               (case DownloadPEMBundles env baseUrl of
                  Inl err \<Rightarrow> (Some (FetchError err), c1)
                | Inr bundles \<Rightarrow>
                    (case converge r bundles c1 of
                       (Some err, c2) \<Rightarrow> (Some (ClusterError err), c2)
                     | (None, c2) \<Rightarrow>
                         (case CleanUpConfigMaps range_order r bundles c2 of
                            (err, c3) \<Rightarrow> (lift_err err, c3))))))"

section \<open>Observations on a cluster\<close>

text \<open>The identifiers the system owns: the names of the ConfigMaps of the target
  namespace that carry the label \<open>app=cabundle-operator\<close>.\<close>

definition is_owned :: "CABundleReconciler \<Rightarrow> ConfigMap \<Rightarrow> bool" where
  "is_owned r cm \<longleftrightarrow>
     Namespace cm = TargetNamespace r \<and> Labels cm ''app'' = Some ''cabundle-operator''"

definition owned :: "CABundleReconciler \<Rightarrow> cluster \<Rightarrow> string set" where
  "owned r c = set (map Name (filter (is_owned r) (objects c)))"

definition lookup :: "string \<Rightarrow> string \<Rightarrow> cluster \<Rightarrow> ConfigMap option" where
  "lookup ns name c = find (has_key ns name) (objects c)"

fun is_write :: "api_call \<Rightarrow> bool" where
  "is_write (CreateCall ns name) = True"
| "is_write (UpdateCall ns name) = True"
| "is_write call = False"

text \<open>The calls a run added to the trace, and the writes among them.\<close>

definition calls_since :: "cluster \<Rightarrow> cluster \<Rightarrow> api_call list" where
  "calls_since before after = drop (length (calls before)) (calls after)"

definition writes_since :: "cluster \<Rightarrow> cluster \<Rightarrow> api_call list" where
  "writes_since before after = filter is_write (calls_since before after)"

section \<open>Observations on a fetch\<close>

text \<open>
  The causes for which the listing half of \<open>DownloadPEMBundles\<close> fails, the links
  the parsed listing holds, the body that the n-th request delivers for a link (if the
  transfer and the read succeed), and whether a per-file response, if one arrives, has
  status 200.
\<close>

definition listing_failure :: "http_env \<Rightarrow> string \<Rightarrow> bool" where
  "listing_failure env baseURL \<longleftrightarrow>
     NewRequest_err env baseURL \<noteq> None \<or>
     (case Do env 0 baseURL of
        Inl err \<Rightarrow> True
      | Inr resp \<Rightarrow>
          StatusCode resp \<noteq> 200 \<or>
          (case Body resp of
             Inl err \<Rightarrow> True
           | Inr text \<Rightarrow> (case Parse env text of Inl err \<Rightarrow> True | Inr doc \<Rightarrow> False)))"

definition discovered :: "http_env \<Rightarrow> string \<Rightarrow> string list" where
  "discovered env baseURL =
     (case Do env 0 baseURL of
        Inl err \<Rightarrow> []
      | Inr resp \<Rightarrow>
          (case Body resp of
             Inl err \<Rightarrow> []
           | Inr text \<Rightarrow> (case Parse env text of Inl err \<Rightarrow> [] | Inr doc \<Rightarrow> walk doc)))"

definition file_body :: "http_env \<Rightarrow> string \<Rightarrow> nat \<Rightarrow> string \<Rightarrow> string option" where
  "file_body env baseURL n name =
     (case Do env n (JoinPath env baseURL name) of
        Inl err \<Rightarrow> None
      | Inr r \<Rightarrow> (case Body r of Inl err \<Rightarrow> None | Inr data \<Rightarrow> Some data))"

definition file_status_ok :: "http_env \<Rightarrow> string \<Rightarrow> nat \<Rightarrow> string \<Rightarrow> bool" where
  "file_status_ok env baseURL n name \<longleftrightarrow>
     (case Do env n (JoinPath env baseURL name) of
        Inl err \<Rightarrow> True
      | Inr r \<Rightarrow> StatusCode r = 200)"

section \<open>The runes of a name\<close>

text \<open>
  The name cut into the runes that the regular expression sees, one after the other,
  and what \<open>reName\<close> makes of one rune: an ASCII letter or digit is kept (in lower
  case), any other rune, of one byte or several, well-formed or not, becomes one \<open>-\<close>.
\<close>

function runes :: "string \<Rightarrow> string list" where
  "runes [] = []"
| "runes (c # cs) =
     (c # take (rune_width (c # cs) - 1) cs) # runes (drop (rune_width (c # cs) - 1) cs)"
  by pat_completeness auto
termination
  by (relation "measure length") (simp_all del: rune_width.simps)

definition replace_rune :: "string \<Rightarrow> char" where
  "replace_rune rune =
     (case rune of
        [c] \<Rightarrow> if is_alnum c then lower_byte c else CHR ''-''
      | _ \<Rightarrow> CHR ''-'')"

section \<open>The reaper beside other clients of the cluster\<close>

text \<open>
  \<open>DeleteBundleConfigMap\<close> makes two calls, a lookup and a delete, and the cluster
  has other clients. \<open>others\<close> is what they do to the cluster between the two calls
  (for the sweep: between the two calls for a given name). With nobody else at work
  these are \<open>DeleteBundleConfigMap\<close>, \<open>delete_stale\<close> and \<open>CleanUpConfigMaps\<close>.
\<close>

definition DeleteBundleConfigMap_racing ::
  "(cluster \<Rightarrow> cluster) \<Rightarrow> CABundleReconciler \<Rightarrow> string \<Rightarrow> cluster
     \<Rightarrow> api_error option \<times> cluster" where
  "DeleteBundleConfigMap_racing others r name c =
     (case client_Get (TargetNamespace r) name c of
        (Inl err, c') \<Rightarrow> (IgnoreNotFound (Some err), c')
      | (Inr cm, c') \<Rightarrow> client_Delete cm (others c'))"

fun delete_stale_racing ::
  "(string \<Rightarrow> cluster \<Rightarrow> cluster) \<Rightarrow> CABundleReconciler \<Rightarrow> (string \<rightharpoonup> bool) \<Rightarrow> string list
     \<Rightarrow> cluster \<Rightarrow> api_error option \<times> cluster" where
  "delete_stale_racing others r existingBundles [] c = (None, c)"
| "delete_stale_racing others r existingBundles (cmName # rest) c =
     (if existingBundles cmName = Some False then
        (case DeleteBundleConfigMap_racing (others cmName) r cmName c of
           (Some err, c') \<Rightarrow> (Some err, c')
         | (None, c') \<Rightarrow> delete_stale_racing others r existingBundles rest c')
      else delete_stale_racing others r existingBundles rest c)"

definition CleanUpConfigMaps_racing ::
  "(string \<Rightarrow> cluster \<Rightarrow> cluster) \<Rightarrow> (string list \<Rightarrow> string list) \<Rightarrow> CABundleReconciler
     \<Rightarrow> PEMFile list \<Rightarrow> cluster \<Rightarrow> api_error option \<times> cluster" where
  "CleanUpConfigMaps_racing others range_order r bundles c =
     (case GetBundleConfigMaps r c of
        (Inl err, c') \<Rightarrow> (Some err, c')
      | (Inr bundleCMNames, c') \<Rightarrow>
          (let existingBundles = mark_fetched (mark_listed bundleCMNames) bundles
           in delete_stale_racing others r existingBundles
                (range_order (remdups bundleCMNames)) c'))"

definition removed_by_another_client :: "string \<Rightarrow> string \<Rightarrow> cluster \<Rightarrow> cluster" where
  "removed_by_another_client ns name c =
     c\<lparr>objects := filter (\<lambda>x. \<not> has_key ns name x) (objects c)\<rparr>"

definition nobody_else :: "string \<Rightarrow> cluster \<Rightarrow> cluster" where
  "nobody_else name c = c"

definition race_on :: "string \<Rightarrow> string \<Rightarrow> string \<Rightarrow> cluster \<Rightarrow> cluster" where
  "race_on ns victim name c = (if name = victim then removed_by_another_client ns victim c else c)"

section \<open>The periodic trigger\<close>

text \<open>
  \<open>Runner.Start\<close> creates a ticker, defers \<open>ticker.Stop()\<close> and
  \<open>close(r.eventCh)\<close>, and loops over a \<open>select\<close> with two cases: a tick, which
  calls \<open>genericEventChannel\<close>, and \<open>ctx.Done()\<close>, which returns. When and how
  the \<open>select\<close> wakes up is decided outside the loop, by the timer, by the context and
  by the Go scheduler, which picks one case when both are ready. A run is given by its
  wakeups: which cases were ready and which one was taken. A cancelled context stays
  cancelled, so in a schedule that can happen (\<open>allowed\<close>) the cancellation case is
  ready at every wakeup after the first one where it is. A schedule that ends without
  the cancellation case being taken leaves the loop waiting in the \<open>select\<close>.
  \<open>time.NewTicker\<close> panics on an interval that is not positive. The send on
  \<open>eventCh\<close> is taken to complete: the events sent are the events received, in order.
  The field \<open>TargetNamespace\<close> of the runner is written \<open>TargetNamespace'\<close>.
\<close>

record Runner =
  interval :: int
  TargetNamespace' :: string

datatype select_case = TickCase | DoneCase

datatype wakeup = TickReady | DoneReady | BothReady select_case

fun selected :: "wakeup \<Rightarrow> select_case" where
  "selected TickReady = TickCase"
| "selected DoneReady = DoneCase"
| "selected (BothReady choice) = choice"

fun done_ready :: "wakeup \<Rightarrow> bool" where
  "done_ready TickReady = False"
| "done_ready DoneReady = True"
| "done_ready (BothReady choice) = True"

fun allowed :: "wakeup list \<Rightarrow> bool" where
  "allowed [] = True"
| "allowed (w # ws) = (if done_ready w then list_all done_ready ws else allowed ws)"

record trigger =
  eventCh :: "ConfigMap list"
  eventCh_closed :: bool
  ticker_stopped :: bool
  returned :: bool

definition genericEventChannel :: "Runner \<Rightarrow> trigger \<Rightarrow> string option \<times> trigger" where
  "genericEventChannel r st =
     (let cm = \<lparr>Name = ''periodic-cabundle-enqueue'', Namespace = TargetNamespace' r,
                Labels = Map.empty, Data = Map.empty\<rparr>;
          event = cm
      in (None, st\<lparr>eventCh := eventCh st @ [event]\<rparr>))"

fun Start_loop :: "Runner \<Rightarrow> wakeup list \<Rightarrow> trigger \<Rightarrow> trigger" where
  "Start_loop r [] st = st"
| "Start_loop r (w # ws) st =
     (case selected w of
        TickCase \<Rightarrow> (case genericEventChannel r st of (err, st') \<Rightarrow> Start_loop r ws st')
      | DoneCase \<Rightarrow> st\<lparr>eventCh_closed := True, ticker_stopped := True, returned := True\<rparr>)"

definition Start :: "Runner \<Rightarrow> wakeup list \<Rightarrow> trigger \<Rightarrow> string + trigger" where
  "Start r ws st =
     (if interval r \<le> 0 then Inl ''non-positive interval for NewTicker''
      else Inr (Start_loop r ws st))"

definition periodic_event :: "Runner \<Rightarrow> ConfigMap" where
  "periodic_event r = \<lparr>Name = ''periodic-cabundle-enqueue'', Namespace = TargetNamespace' r,
                        Labels = Map.empty, Data = Map.empty\<rparr>"

definition idle :: trigger where
  "idle = \<lparr>eventCh = [], eventCh_closed = False, ticker_stopped = False, returned = False\<rparr>"

definition sent_after_cancel :: "Runner \<Rightarrow> wakeup list \<Rightarrow> trigger \<Rightarrow> nat" where
  "sent_after_cancel r ws st =
     length (eventCh (Start_loop r ws st))
       - length (eventCh (Start_loop r (takeWhile (\<lambda>w. \<not> done_ready w) ws) st))"

definition every_minute :: Runner where
  "every_minute = \<lparr>interval = 60000000000, TargetNamespace' = ''trust''\<rparr>"

section \<open>The normalizer as the specification words it\<close>

text \<open>
  The specification's normalizer trims one of the two suffixes, replaces every run of
  characters outside \<open>[a-zA-Z0-9]\<close> by a single separator and lowercases.
\<close>

definition trim_one_suffix :: "string \<Rightarrow> string" where
  "trim_one_suffix name =
     (if HasSuffix name ''.pem'' then TrimSuffix name ''.pem'' else TrimSuffix name ''.crt'')"

fun collapse_runs :: "string \<Rightarrow> string" where
  "collapse_runs [] = []"
| "collapse_runs (c # cs) =
     (if is_alnum c then c # collapse_runs cs
      else if cs \<noteq> [] \<and> \<not> is_alnum (hd cs) then collapse_runs cs
      else CHR ''-'' # collapse_runs cs)"

definition normalize_spec :: "string \<Rightarrow> string" where
  "normalize_spec name = ToLower (collapse_runs (trim_one_suffix name))"

definition is_lower_alnum :: "char \<Rightarrow> bool" where
  "is_lower_alnum c \<longleftrightarrow> byte_in 97 122 c \<or> byte_in 48 57 c"

text \<open>The ConfigMap that the create branch of \<open>createOrUpdateConfigMap\<close> builds.\<close>

definition new_cm :: "CABundleReconciler \<Rightarrow> PEMFile \<Rightarrow> ConfigMap" where
  "new_cm r b = \<lparr>Name = reName (Filename b), Namespace = TargetNamespace r,
                 Labels = [''app'' \<mapsto> ''cabundle-operator''],
                 Data = [CAKey \<mapsto> Content b]\<rparr>"

section \<open>Example data\<close>

definition trust :: CABundleReconciler where
  "trust = \<lparr>TargetNamespace = ''trust''\<rparr>"

definition pem_file :: "string \<Rightarrow> string \<Rightarrow> PEMFile" where
  "pem_file name content = \<lparr>Filename = name, Content = content\<rparr>"

definition owned_cm :: "string \<Rightarrow> string \<Rightarrow> ConfigMap" where
  "owned_cm name content =
     \<lparr>Name = name, Namespace = ''trust'',
      Labels = [''app'' \<mapsto> ''cabundle-operator''], Data = [''ca.crt'' \<mapsto> content]\<rparr>"

definition foreign_cm :: "string \<Rightarrow> string \<Rightarrow> ConfigMap" where
  "foreign_cm name content =
     \<lparr>Name = name, Namespace = ''trust'', Labels = Map.empty, Data = [''ca.crt'' \<mapsto> content]\<rparr>"


definition cluster_of :: "ConfigMap list \<Rightarrow> string option list \<Rightarrow> cluster" where
  "cluster_of cms fs = \<lparr>objects = cms, calls = [], faults = fs\<rparr>"

definition example_doc :: Node where
  "example_doc =
     Node DocumentNode '''' []
       [Node ElementNode ''html'' []
          [Node ElementNode ''body'' []
             [Node ElementNode ''a'' [\<lparr>Key = ''href'', Val = ''bundle-a.pem''\<rparr>]
                [Node TextNode ''bundle-a.pem'' [] []],
              Node ElementNode ''a'' [\<lparr>Key = ''href'', Val = ''README.txt''\<rparr>] [],
              Node ElementNode ''a'' [\<lparr>Key = ''href'', Val = ''bundle-b.crt''\<rparr>] []]]]"

definition example_env :: "nat \<Rightarrow> string \<Rightarrow> http_env" where
  "example_env code status =
     \<lparr>NewRequest_err = (\<lambda>url. None),
      Do = (\<lambda>n url.
              if n = 0 then Inr \<lparr>StatusCode = code, Status = status, Body = Inr ''<html>''\<rparr>
              else if url = ''http://ca.example/bundle-a.pem''
                then Inr \<lparr>StatusCode = 200, Status = ''200 OK'', Body = Inr ''AAA''\<rparr>
              else if url = ''http://ca.example/bundle-b.crt''
                then Inr \<lparr>StatusCode = 200, Status = ''200 OK'', Body = Inr ''BBB''\<rparr>
              else Inl ''connection refused''),
      Parse = (\<lambda>text. Inr example_doc),
      JoinPath = (\<lambda>base name. base @ ''/'' @ name)\<rparr>"

section \<open>Properties of the normalizer\<close>

lemma HasSuffix_append: "HasSuffix (b @ suf) suf"
  by (simp add: HasSuffix_def)

lemma TrimSuffix_append: "TrimSuffix (b @ suf) suf = b"
  by (simp add: TrimSuffix_def HasSuffix_append)

lemma HasSuffix_same_length:
  "length suf' = length suf \<Longrightarrow> HasSuffix (b @ suf) suf' \<longleftrightarrow> suf = suf'"
  by (auto simp: HasSuffix_def)

lemma TrimSuffix_other:
  "length suf' = length suf \<Longrightarrow> suf \<noteq> suf' \<Longrightarrow> TrimSuffix (b @ suf) suf' = b @ suf"
  by (simp add: TrimSuffix_def HasSuffix_same_length)

lemma set_TrimSuffix: "set (TrimSuffix s suf) \<subseteq> set s"
  by (auto simp: TrimSuffix_def dest: in_set_takeD)

lemma ReplaceAllString_ascii_input:
  "\<forall>c \<in> set s. (of_char c :: nat) < 128 \<Longrightarrow>
   ReplaceAllString s = map (\<lambda>c. if is_alnum c then c else CHR ''-'') s"
  by (induction s) simp_all

lemma ReplaceAllString_ascii:
  "c \<in> set (ReplaceAllString s) \<Longrightarrow> is_alnum c \<or> c = CHR ''-''"
  by (induction s rule: ReplaceAllString.induct) (auto split: if_splits simp del: rune_width.simps)

lemma lower_byte_alnum: "is_alnum c \<Longrightarrow> is_lower_alnum (lower_byte c)"
  by (auto simp: is_alnum_def is_lower_alnum_def lower_byte_def byte_in_def)

lemma lower_byte_dash: "lower_byte (CHR ''-'') = CHR ''-''"
  by (simp add: lower_byte_def byte_in_def)

lemma reName_alphabet:
  "c \<in> set (reName name) \<Longrightarrow> is_lower_alnum c \<or> c = CHR ''-''"
  by (auto simp: reName_def ToLower_def Let_def lower_byte_dash
           dest!: ReplaceAllString_ascii dest: lower_byte_alnum)

lemma reName_crt_pem: "reName (base @ ''.crt.pem'') = ToLower (ReplaceAllString base)"
proof -
  have "base @ ''.crt.pem'' = (base @ ''.crt'') @ ''.pem''" by simp
  then show ?thesis unfolding reName_def Let_def by (simp only: TrimSuffix_append)
qed

lemma reName_pem_crt:
  "reName (base @ ''.pem.crt'') = ToLower (ReplaceAllString (base @ ''.pem''))"
proof -
  have e: "base @ ''.pem.crt'' = (base @ ''.pem'') @ ''.crt''" by simp
  have "TrimSuffix (base @ ''.pem.crt'') ''.pem'' = base @ ''.pem.crt''"
    unfolding e by (rule TrimSuffix_other) simp_all
  then show ?thesis unfolding reName_def Let_def by (simp only: e TrimSuffix_append)
qed

lemma reName_ascii_input:
  assumes "\<forall>c \<in> set name. (of_char c :: nat) < 128"
  shows "reName name = map (\<lambda>c. if is_alnum c then lower_byte c else CHR ''-'')
                           (TrimSuffix (TrimSuffix name ''.pem'') ''.crt'')"
proof -
  let ?t = "TrimSuffix (TrimSuffix name ''.pem'') ''.crt''"
  have "set ?t \<subseteq> set name"
    using set_TrimSuffix [of "TrimSuffix name ''.pem''" "''.crt''"]
          set_TrimSuffix [of name "''.pem''"]
    by blast
  with assms have "\<forall>c \<in> set ?t. (of_char c :: nat) < 128" by blast
  then have "ReplaceAllString ?t = map (\<lambda>c. if is_alnum c then c else CHR ''-'') ?t"
    by (rule ReplaceAllString_ascii_input)
  then show ?thesis
    by (simp add: reName_def Let_def ToLower_def comp_def lower_byte_dash if_distrib
             cong: if_cong)
qed

lemma rune_width_alnum: "is_alnum c \<Longrightarrow> rune_width (c # cs) = 1"
  by (auto simp: is_alnum_def byte_in_def)

lemma ReplaceAllString_runes:
  "ToLower (ReplaceAllString s) = map replace_rune (runes s)"
proof (induction s rule: ReplaceAllString.induct)
  case 1
  then show ?case by (simp add: ToLower_def)
next
  case (2 c cs)
  show ?case
  proof (cases "is_alnum c")
    case True
    with 2 show ?thesis
      by (simp add: ToLower_def replace_rune_def rune_width_alnum del: rune_width.simps)
  next
    case False
    with 2 show ?thesis
      by (simp add: ToLower_def replace_rune_def lower_byte_dash del: rune_width.simps
               split: list.splits)
  qed
qed

lemma concat_runes: "concat (runes s) = s"
  by (induction s rule: runes.induct) (simp_all del: rune_width.simps)

lemma reName_runes:
  "reName name = map replace_rune (runes (TrimSuffix (TrimSuffix name ''.pem'') ''.crt''))"
  by (simp add: reName_def Let_def ReplaceAllString_runes)

lemma rune_width_bounds: "1 \<le> rune_width (c # cs) \<and> rune_width (c # cs) \<le> 4"
  by simp

lemma runes_chunks: "rune \<in> set (runes s) \<Longrightarrow> rune \<noteq> [] \<and> length rune \<le> 4"
proof (induction s rule: runes.induct)
  case 1
  then show ?case by simp
next
  case (2 c cs)
  have "length (c # take (rune_width (c # cs) - 1) cs) \<le> 4"
    using rune_width_bounds [of c cs] by (simp del: rune_width.simps) arith
  with 2 show ?case by (auto simp del: rune_width.simps)
qed

text \<open>
  C4, as stated, fails: the normalizer does not collapse a run of characters outside
  \<open>[a-zA-Z0-9]\<close> into one separator (two spaces give two separators), and it trims
  both suffixes where the name carries \<open>.crt.pem\<close>, not one of them.
\<close>

theorem C4_runs_not_collapsed_counterexample:
  "reName ''a  b.pem'' = ''a--b'' \<and> normalize_spec ''a  b.pem'' = ''a-b'' \<and>
   reName ''foo.crt.pem'' = ''foo'' \<and> normalize_spec ''foo.crt.pem'' = ''foo-crt''"
  by code_simp

text \<open>
  C4, amended: \<open>reName\<close> is a total function of the name alone. It trims a trailing
  \<open>.pem\<close>, then a trailing \<open>.crt\<close>, and gives one character for every rune of
  what is left: the lower-case form of an ASCII letter or digit, and one \<open>-\<close> for
  every other rune, so a run of such runes gives as many separators. The runes cut the
  name into pieces of one to four bytes; for a name of ASCII characters every byte is a
  rune. The result holds lowercase letters, digits and \<open>-\<close> only, and the two examples
  of the specification hold; a two-byte, a three-byte and a four-byte character give one
  separator each, and each byte of a malformed sequence gives one.
\<close>

theorem C4_reName_per_rune:
  "reName name = map replace_rune (runes (TrimSuffix (TrimSuffix name ''.pem'') ''.crt'')) \<and>
   concat (runes s) = s \<and>
   (\<forall>rune \<in> set (runes s). rune \<noteq> [] \<and> length rune \<le> 4) \<and>
   ((\<forall>c \<in> set name. (of_char c :: nat) < 128) \<longrightarrow>
      reName name = map (\<lambda>c. if is_alnum c then lower_byte c else CHR ''-'')
                        (TrimSuffix (TrimSuffix name ''.pem'') ''.crt'')) \<and>
   (\<forall>c \<in> set (reName name). is_lower_alnum c \<or> c = CHR ''-'') \<and>
   reName ''My Root CA.pem'' = ''my-root-ca'' \<and>
   reName ''intermediate.crt'' = ''intermediate'' \<and>
   reName [CHR ''c'', CHR ''a'', CHR ''f'', CHR 0xC3, CHR 0xA9, CHR ''.'', CHR ''p'', CHR ''e'', CHR ''m'']
     = ''caf-'' \<and>
   reName [CHR ''A'', CHR 0xE2, CHR 0x82, CHR 0xAC, CHR ''b'', CHR 0xF0, CHR 0x9F, CHR 0x98, CHR 0x80,
           CHR ''C''] = ''a-b-c'' \<and>
   reName [CHR 0xFF, CHR ''x'', CHR 0xE2, CHR 0x82, CHR ''y'', CHR 0xC0, CHR 0x80, CHR ''z'',
           CHR 0xED, CHR 0xA0, CHR 0x80] = ''-x--y--z---'' \<and>
   runes [CHR ''c'', CHR 0xC3, CHR 0xA9, CHR 0xFF] = [''c'', [CHR 0xC3, CHR 0xA9], [CHR 0xFF]]"
proof -
  have ex1: "reName ''My Root CA.pem'' = ''my-root-ca''" by code_simp
  have ex2: "reName ''intermediate.crt'' = ''intermediate''" by code_simp
  have ex3: "reName [CHR ''c'', CHR ''a'', CHR ''f'', CHR 0xC3, CHR 0xA9, CHR ''.'', CHR ''p'', CHR ''e'',
                     CHR ''m''] = ''caf-''"
    by code_simp
  have ex4: "reName [CHR ''A'', CHR 0xE2, CHR 0x82, CHR 0xAC, CHR ''b'', CHR 0xF0, CHR 0x9F, CHR 0x98,
                     CHR 0x80, CHR ''C''] = ''a-b-c''"
    by code_simp
  have ex5: "reName [CHR 0xFF, CHR ''x'', CHR 0xE2, CHR 0x82, CHR ''y'', CHR 0xC0, CHR 0x80, CHR ''z'',
                     CHR 0xED, CHR 0xA0, CHR 0x80] = ''-x--y--z---''"
    by code_simp
  have ex6: "runes [CHR ''c'', CHR 0xC3, CHR 0xA9, CHR 0xFF]
               = [''c'', [CHR 0xC3, CHR 0xA9], [CHR 0xFF]]"
    by code_simp
  have g: "reName name = map replace_rune (runes (TrimSuffix (TrimSuffix name ''.pem'') ''.crt''))"
    by (rule reName_runes)
  have ch: "\<forall>rune \<in> set (runes s). rune \<noteq> [] \<and> length rune \<le> 4"
    using runes_chunks [of _ s] by blast
  have al: "\<forall>c \<in> set (reName name). is_lower_alnum c \<or> c = CHR ''-''"
    using reName_alphabet [of _ name] by blast
  have asc: "(\<forall>c \<in> set name. (of_char c :: nat) < 128) \<longrightarrow>
      reName name = map (\<lambda>c. if is_alnum c then lower_byte c else CHR ''-'')
                        (TrimSuffix (TrimSuffix name ''.pem'') ''.crt'')"
    using reName_ascii_input [of name] by blast
  from g concat_runes [of s] ch asc al ex1 ex2 ex3 ex4 ex5 ex6 show ?thesis
    by (intro conjI)
qed

theorem C4_reName_per_rune_witness:
  "list_all (\<lambda>c. (of_char c :: nat) < 128) ''My  Root_CA.pem'' \<and>
   reName ''My  Root_CA.pem'' = ''my--root-ca''"
proof -
  have a: "\<forall>c \<in> set ''My  Root_CA.pem''. (of_char c :: nat) < 128" by simp
  have t: "TrimSuffix (TrimSuffix ''My  Root_CA.pem'' ''.pem'') ''.crt'' = ''My  Root_CA''"
    by code_simp
  have m: "map (\<lambda>c. if is_alnum c then lower_byte c else CHR ''-'') ''My  Root_CA''
             = ''my--root-ca''"
    by code_simp
  note th = C4_reName_per_rune [of "''My  Root_CA.pem''" "[]"]
  from th a have r:
    "reName ''My  Root_CA.pem'' =
       map (\<lambda>c. if is_alnum c then lower_byte c else CHR ''-'')
           (TrimSuffix (TrimSuffix ''My  Root_CA.pem'' ''.pem'') ''.crt'')"
    by blast
  have r': "reName ''My  Root_CA.pem'' = ''my--root-ca''"
    by (simp only: r t m)
  from a have "list_all (\<lambda>c. (of_char c :: nat) < 128) ''My  Root_CA.pem''"
    by (simp only: list_all_iff)
  with r' show ?thesis by blast
qed

text \<open>
  C9: the two suffixes are trimmed one after the other, \<open>.pem\<close> first and \<open>.crt\<close>
  second. A name that ends in \<open>.crt.pem\<close> loses both, so \<open>foo.crt.pem\<close> becomes
  \<open>foo\<close> and not \<open>foo-crt\<close>; a name that ends in \<open>.pem.crt\<close> loses \<open>.crt\<close> only,
  so \<open>foo.pem.crt\<close> becomes \<open>foo-pem\<close>.
\<close>

theorem C9_suffixes_trimmed_in_sequence:
  "reName (base @ ''.crt.pem'') = ToLower (ReplaceAllString base) \<and>
   reName (base @ ''.pem.crt'') = ToLower (ReplaceAllString (base @ ''.pem'')) \<and>
   reName ''foo.crt.pem'' = ''foo'' \<and> reName ''foo.crt.pem'' \<noteq> ''foo-crt'' \<and>
   reName ''foo.pem.crt'' = ''foo-pem''"
proof -
  have "reName ''foo.crt.pem'' = ''foo''" by code_simp
  moreover have "reName ''foo.pem.crt'' = ''foo-pem''" by code_simp
  ultimately show ?thesis
    using reName_crt_pem [of base] reName_pem_crt [of base] by simp
qed

section \<open>The client and the controller, call by call\<close>

lemma objects_logged: "objects (logged call c) = objects c"
  by (simp add: logged_def)

lemma calls_logged: "calls (logged call c) = calls c @ [call]"
  by (simp add: logged_def)

lemma faults_logged: "faults (logged call c) = tl (faults c)"
  by (simp add: logged_def)

lemma lookup_logged: "lookup ns name (logged call c) = lookup ns name c"
  by (simp add: lookup_def objects_logged)

lemma client_Get_eq:
  "client_Get ns name c =
     (case next_fault c of
        Some msg \<Rightarrow> Inl (Failure msg)
      | None \<Rightarrow> (case lookup ns name c of None \<Rightarrow> Inl NotFound | Some cm \<Rightarrow> Inr cm),
      logged (GetCall ns name) c)"
  by (simp add: client_Get_def attempt_def lookup_def objects_logged
           split: option.splits)

lemma lookup_SomeD: "lookup ns name c = Some cm \<Longrightarrow> Namespace cm = ns \<and> Name cm = name \<and> cm \<in> set (objects c)"
  by (auto simp: lookup_def find_Some_iff has_key_def in_set_conv_nth)

lemma lookup_None_iff: "lookup ns name c = None \<longleftrightarrow> (\<forall>x \<in> set (objects c). \<not> has_key ns name x)"
  by (auto simp: lookup_def find_None_iff)

lemma client_Create_eq:
  "client_Create cm c =
     (case next_fault c of
        Some msg \<Rightarrow> (Some (Failure msg), logged (CreateCall (Namespace cm) (Name cm)) c)
      | None \<Rightarrow>
          if lookup (Namespace cm) (Name cm) c \<noteq> None
          then (Some AlreadyExists, logged (CreateCall (Namespace cm) (Name cm)) c)
          else (None, (logged (CreateCall (Namespace cm) (Name cm)) c)\<lparr>objects := objects c @ [cm]\<rparr>))"
  by (simp add: client_Create_def attempt_def lookup_def objects_logged
           split: option.splits)

lemma client_Update_eq:
  "client_Update cm c =
     (case next_fault c of
        Some msg \<Rightarrow> (Some (Failure msg), logged (UpdateCall (Namespace cm) (Name cm)) c)
      | None \<Rightarrow>
          if lookup (Namespace cm) (Name cm) c = None
          then (Some NotFound, logged (UpdateCall (Namespace cm) (Name cm)) c)
          else (None, (logged (UpdateCall (Namespace cm) (Name cm)) c)\<lparr>objects :=
                  map (\<lambda>x. if has_key (Namespace cm) (Name cm) x then cm else x) (objects c)\<rparr>))"
  by (simp add: client_Update_def attempt_def lookup_def objects_logged
           split: option.splits)

lemma client_Delete_eq:
  "client_Delete cm c =
     (case next_fault c of
        Some msg \<Rightarrow> (Some (Failure msg), logged (DeleteCall (Namespace cm) (Name cm)) c)
      | None \<Rightarrow>
          if lookup (Namespace cm) (Name cm) c = None
          then (Some NotFound, logged (DeleteCall (Namespace cm) (Name cm)) c)
          else (None, (logged (DeleteCall (Namespace cm) (Name cm)) c)\<lparr>objects :=
                  filter (\<lambda>x. \<not> has_key (Namespace cm) (Name cm) x) (objects c)\<rparr>))"
  by (simp add: client_Delete_def attempt_def lookup_def objects_logged
           split: option.splits)

lemma client_List_eq:
  "client_List ns lkey lval c =
     (case next_fault c of
        Some msg \<Rightarrow> Inl (Failure msg)
      | None \<Rightarrow> Inr (filter (\<lambda>cm. Namespace cm = ns \<and> Labels cm lkey = Some lval) (objects c)),
      logged (ListCall ns lkey lval) c)"
  by (simp add: client_List_def attempt_def objects_logged split: option.splits)

lemma checkConfigMap_eq:
  "checkConfigMap r b c =
     (next_fault c = None \<and>
        (\<exists>cm. lookup (TargetNamespace r) (reName (Filename b)) c = Some cm \<and>
              Data cm (Filename b) = Some (Content b)),
      logged (GetCall (TargetNamespace r) (reName (Filename b))) c)"
  by (auto simp: checkConfigMap_def client_Get_eq Let_def split: option.splits)

lemma createOrUpdate_eq:
  "createOrUpdateConfigMap r b c =
     (let ns = TargetNamespace r; n = reName (Filename b); c1 = logged (GetCall ns n) c in
      case next_fault c of
        Some msg \<Rightarrow> (Some (Failure msg), c1)
      | None \<Rightarrow>
         (case lookup ns n c of
            None \<Rightarrow> client_Create (new_cm r b) c1
          | Some cm \<Rightarrow> client_Update (cm\<lparr>Data := (Data cm)(CAKey \<mapsto> Content b)\<rparr>) c1))"
  by (simp add: createOrUpdateConfigMap_def client_Get_eq Let_def new_cm_def split: option.splits)

lemma IgnoreNotFound_simps:
  "IgnoreNotFound (Some NotFound) = None"
  "IgnoreNotFound (Some (Failure msg)) = Some (Failure msg)"
  "IgnoreNotFound (Some AlreadyExists) = Some AlreadyExists"
  "IgnoreNotFound None = None"
  by (simp_all add: IgnoreNotFound_def)

lemma DeleteBundleConfigMap_eq:
  "DeleteBundleConfigMap r name c =
     (let c1 = logged (GetCall (TargetNamespace r) name) c in
      case next_fault c of
        Some msg \<Rightarrow> (Some (Failure msg), c1)
      | None \<Rightarrow>
         (case lookup (TargetNamespace r) name c of
            None \<Rightarrow> (None, c1)
          | Some cm \<Rightarrow> client_Delete cm c1))"
  by (simp add: DeleteBundleConfigMap_def client_Get_eq Let_def IgnoreNotFound_simps
           split: option.splits)

text \<open>
  A name that is absent when \<open>DeleteBundleConfigMap\<close> looks it up: the lookup reports
  not-found, the operation returns no error and issues no delete call, and the sweep
  goes on with the remaining names.
\<close>

lemma DeleteBundleConfigMap_absent:
  assumes "lookup (TargetNamespace r) name c = None"
  shows "(next_fault c = None \<longrightarrow>
            fst (client_Get (TargetNamespace r) name c) = Inl NotFound \<and>
            fst (DeleteBundleConfigMap r name c) = None \<and>
            delete_stale r existingBundles (name # rest) c =
              delete_stale r existingBundles rest
                (if existingBundles name = Some False
                 then logged (GetCall (TargetNamespace r) name) c else c)) \<and>
         fst (DeleteBundleConfigMap r name c) \<noteq> Some NotFound \<and>
         objects (snd (DeleteBundleConfigMap r name c)) = objects c \<and>
         calls (snd (DeleteBundleConfigMap r name c))
           = calls c @ [GetCall (TargetNamespace r) name]"
  using assms
  by (auto simp: DeleteBundleConfigMap_eq client_Get_eq Let_def objects_logged calls_logged
           split: option.splits)

lemma converge_append:
  "converge r pre c = (None, c1) \<Longrightarrow> converge r (pre @ rest) c = converge r rest c1"
proof (induction pre arbitrary: c)
  case Nil
  then show ?case by simp
next
  case (Cons b pre)
  then show ?case
    by (auto split: prod.splits bool.splits option.splits)
qed

lemma createOrUpdate_failure:
  assumes "createOrUpdateConfigMap r b c = (Some err, c')"
  shows "objects c' = objects c \<and>
         (calls c' = calls c @ [GetCall (TargetNamespace r) (reName (Filename b))] \<or>
          calls c' = calls c @ [GetCall (TargetNamespace r) (reName (Filename b)),
                                CreateCall (TargetNamespace r) (reName (Filename b))] \<or>
          calls c' = calls c @ [GetCall (TargetNamespace r) (reName (Filename b)),
                                UpdateCall (TargetNamespace r) (reName (Filename b))])"
  using assms
  by (auto simp: createOrUpdate_eq Let_def client_Create_eq client_Update_eq new_cm_def
                 objects_logged calls_logged lookup_logged
           split: option.splits if_splits dest: lookup_SomeD)

section \<open>Convergence and reaping\<close>

text \<open>A cycle whose configuration and fetch succeed is \<open>converge\<close> followed by
  \<open>CleanUpConfigMaps\<close> on the same fetched set.\<close>

lemma Reconcile_cycle:
  assumes "lookup req_namespace req_name c = Some cm" and "next_fault c = None"
      and "Data cm ''bundle_url'' = Some baseUrl"
      and "DownloadPEMBundles env baseUrl = Inr bundles"
  shows "Reconcile env range_order r req_namespace req_name c =
           (case converge r bundles (logged (GetCall req_namespace req_name) c) of
              (Some err, c2) \<Rightarrow> (Some (ClusterError err), c2)
            | (None, c2) \<Rightarrow>
                (case CleanUpConfigMaps range_order r bundles c2 of
                   (err, c3) \<Rightarrow> (lift_err err, c3)))"
  using assms by (simp add: Reconcile_def client_Get_eq)

lemma reName_examples:
  "reName ''bundle-a.pem'' = ''bundle-a''"
  "reName ''bundle-b.crt'' = ''bundle-b''"
  "reName ''bundle-c.pem'' = ''bundle-c''"
  by code_simp+

lemmas run_simps =
  trust_def pem_file_def owned_cm_def foreign_cm_def cluster_of_def reName_examples
  checkConfigMap_eq createOrUpdate_eq client_Create_eq client_Update_eq client_Delete_eq
  client_List_eq DeleteBundleConfigMap_eq GetBundleConfigMaps_def CleanUpConfigMaps_def
  new_cm_def
  next_fault_def logged_def lookup_def has_key_def CAKey_def Let_def
  is_owned_def owned_def calls_since_def writes_since_def

text \<open>
  C6: when \<open>createOrUpdateConfigMap\<close> fails for a record of the batch, the cycle ends
  with that error. The store is the one the earlier records left (nothing is rolled
  back, the failed attempt changes nothing), and the final cluster does not depend on the
  records after the failing one: the trace ends with the calls of the failing record, so
  none of the later records is attempted.
\<close>

theorem C6_partial_failure_containment:
  assumes "converge r pre c = (None, c1)"
      and "checkConfigMap r b c1 = (False, c2)"
      and "createOrUpdateConfigMap r b c2 = (Some err, c3)"
  shows "converge r (pre @ b # post) c = (Some err, c3) \<and>
         objects c3 = objects c1 \<and>
         (calls c3 = calls c1 @ [GetCall (TargetNamespace r) (reName (Filename b)),
                                 GetCall (TargetNamespace r) (reName (Filename b))] \<or>
          calls c3 = calls c1 @ [GetCall (TargetNamespace r) (reName (Filename b)),
                                 GetCall (TargetNamespace r) (reName (Filename b)),
                                 CreateCall (TargetNamespace r) (reName (Filename b))] \<or>
          calls c3 = calls c1 @ [GetCall (TargetNamespace r) (reName (Filename b)),
                                 GetCall (TargetNamespace r) (reName (Filename b)),
                                 UpdateCall (TargetNamespace r) (reName (Filename b))])"
proof -
  have run: "converge r (pre @ b # post) c = (Some err, c3)"
    using assms by (simp add: converge_append)
  have c2: "c2 = logged (GetCall (TargetNamespace r) (reName (Filename b))) c1"
    using assms(2) by (simp add: checkConfigMap_eq)
  from createOrUpdate_failure [OF assms(3)] run show ?thesis
    by (auto simp: c2 objects_logged calls_logged)
qed

theorem C6_partial_failure_containment_witness:
  "converge trust [pem_file ''bundle-a.pem'' ''AAA'', pem_file ''bundle-b.crt'' ''BBB'',
                   pem_file ''bundle-c.pem'' ''CCC'']
     (cluster_of [] [None, None, None, None, None, Some ''boom''])
   = (Some (Failure ''boom''),
      \<lparr>objects = [owned_cm ''bundle-a'' ''AAA''],
       calls = [GetCall ''trust'' ''bundle-a'', GetCall ''trust'' ''bundle-a'',
                CreateCall ''trust'' ''bundle-a'',
                GetCall ''trust'' ''bundle-b'', GetCall ''trust'' ''bundle-b'',
                CreateCall ''trust'' ''bundle-b''],
       faults = []\<rparr>)"
proof -
  let ?c = "cluster_of [] [None, None, None, None, None, Some ''boom'']"
  let ?c1 = "\<lparr>objects = [owned_cm ''bundle-a'' ''AAA''],
              calls = [GetCall ''trust'' ''bundle-a'', GetCall ''trust'' ''bundle-a'',
                       CreateCall ''trust'' ''bundle-a''],
              faults = [None, None, Some ''boom'']\<rparr>"
  let ?c2 = "logged (GetCall ''trust'' ''bundle-b'') ?c1"
  let ?c3 = "\<lparr>objects = [owned_cm ''bundle-a'' ''AAA''],
       calls = [GetCall ''trust'' ''bundle-a'', GetCall ''trust'' ''bundle-a'',
                CreateCall ''trust'' ''bundle-a'',
                GetCall ''trust'' ''bundle-b'', GetCall ''trust'' ''bundle-b'',
                CreateCall ''trust'' ''bundle-b''],
       faults = []\<rparr>"
  have h1: "converge trust [pem_file ''bundle-a.pem'' ''AAA''] ?c = (None, ?c1)"
    by (simp add: run_simps)
  have h2: "checkConfigMap trust (pem_file ''bundle-b.crt'' ''BBB'') ?c1 = (False, ?c2)"
    by (simp add: run_simps)
  have h3: "createOrUpdateConfigMap trust (pem_file ''bundle-b.crt'' ''BBB'') ?c2
              = (Some (Failure ''boom''), ?c3)"
    by (simp add: run_simps)
  from C6_partial_failure_containment [OF h1 h2 h3, of "[pem_file ''bundle-c.pem'' ''CCC'']"]
  show ?thesis by simp
qed

lemma delete_stale_append:
  "delete_stale r m pre c = (None, c1) \<Longrightarrow>
   delete_stale r m (pre @ rest) c = delete_stale r m rest c1"
proof (induction pre arbitrary: c)
  case Nil
  then show ?case by simp
next
  case (Cons k pre)
  then show ?case
    by (auto split: prod.splits option.splits if_splits)
qed

lemma mark_listed_apply:
  "mark_listed names k = (if k \<in> set names then Some False else None)"
proof -
  have "foldl (\<lambda>m b. m(b \<mapsto> False)) m0 names k = (if k \<in> set names then Some False else m0 k)"
    for m0
    by (induction names arbitrary: m0) auto
  then show ?thesis by (simp add: mark_listed_def)
qed

lemma mark_fetched_apply:
  "mark_fetched m bundles k =
     (if m k \<noteq> None \<and> k \<in> reName ` Filename ` set bundles then Some True else m k)"
  unfolding mark_fetched_def
  by (induction bundles arbitrary: m) (auto simp: Let_def)

lemma existingBundles_apply:
  "mark_fetched (mark_listed names) bundles k =
     (if k \<in> set names then Some (k \<in> reName ` Filename ` set bundles) else None)"
  by (auto simp: mark_fetched_apply mark_listed_apply)

lemmas sweep_simps = run_simps existingBundles_apply

lemma DeleteBundleConfigMap_failure:
  assumes "DeleteBundleConfigMap r name c = (Some err, c')"
  shows "objects c' = objects c \<and>
         (calls c' = calls c @ [GetCall (TargetNamespace r) name] \<or>
          calls c' = calls c @ [GetCall (TargetNamespace r) name,
                                DeleteCall (TargetNamespace r) name])"
  using assms
  by (auto simp: DeleteBundleConfigMap_eq Let_def client_Delete_eq
                 objects_logged calls_logged lookup_logged
           split: option.splits if_splits dest: lookup_SomeD)

text \<open>
  C3, as stated, fails: with two stale resources and a failure at the first deletion,
  the sweep ends there. Whichever of the two the range visits first, there is no call
  for the other one, and both are still in the store.
\<close>

theorem C3_sweep_abandoned_counterexample:
  "CleanUpConfigMaps (\<lambda>ks. ks) trust []
     (cluster_of [owned_cm ''bundle-c'' ''CCC'', owned_cm ''bundle-d'' ''DDD''] [None, Some ''boom''])
   = (Some (Failure ''boom''),
      \<lparr>objects = [owned_cm ''bundle-c'' ''CCC'', owned_cm ''bundle-d'' ''DDD''],
       calls = [ListCall ''trust'' ''app'' ''cabundle-operator'', GetCall ''trust'' ''bundle-c''],
       faults = []\<rparr>) \<and>
   CleanUpConfigMaps rev trust []
     (cluster_of [owned_cm ''bundle-c'' ''CCC'', owned_cm ''bundle-d'' ''DDD''] [None, Some ''boom''])
   = (Some (Failure ''boom''),
      \<lparr>objects = [owned_cm ''bundle-c'' ''CCC'', owned_cm ''bundle-d'' ''DDD''],
       calls = [ListCall ''trust'' ''app'' ''cabundle-operator'', GetCall ''trust'' ''bundle-d''],
       faults = []\<rparr>)"
  by (simp add: sweep_simps)

text \<open>
  C1 fails on the code: \<open>checkConfigMap\<close> compares the entry of the ConfigMap under
  the file name of the bundle, while \<open>createOrUpdateConfigMap\<close> stores the content
  under \<open>ca.crt\<close>. After a first run that created \<open>bundle-a\<close>, a second run with the
  same fetched set finds no entry \<open>bundle-a.pem\<close> and updates the ConfigMap again.
\<close>

theorem C1_second_run_writes_again:
  "converge trust [pem_file ''bundle-a.pem'' ''AAA''] (cluster_of [] [])
     = (None, \<lparr>objects = [owned_cm ''bundle-a'' ''AAA''],
               calls = [GetCall ''trust'' ''bundle-a'', GetCall ''trust'' ''bundle-a'',
                        CreateCall ''trust'' ''bundle-a''],
               faults = []\<rparr>) \<and>
   converge trust [pem_file ''bundle-a.pem'' ''AAA'']
     \<lparr>objects = [owned_cm ''bundle-a'' ''AAA''],
      calls = [GetCall ''trust'' ''bundle-a'', GetCall ''trust'' ''bundle-a'',
               CreateCall ''trust'' ''bundle-a''],
      faults = []\<rparr>
     = (None, \<lparr>objects = [owned_cm ''bundle-a'' ''AAA''],
               calls = [GetCall ''trust'' ''bundle-a'', GetCall ''trust'' ''bundle-a'',
                        CreateCall ''trust'' ''bundle-a'',
                        GetCall ''trust'' ''bundle-a'', GetCall ''trust'' ''bundle-a'',
                        UpdateCall ''trust'' ''bundle-a''],
               faults = []\<rparr>) \<and>
   writes_since
     \<lparr>objects = [owned_cm ''bundle-a'' ''AAA''],
      calls = [GetCall ''trust'' ''bundle-a'', GetCall ''trust'' ''bundle-a'',
               CreateCall ''trust'' ''bundle-a''],
      faults = []\<rparr>
     \<lparr>objects = [owned_cm ''bundle-a'' ''AAA''],
      calls = [GetCall ''trust'' ''bundle-a'', GetCall ''trust'' ''bundle-a'',
               CreateCall ''trust'' ''bundle-a'',
               GetCall ''trust'' ''bundle-a'', GetCall ''trust'' ''bundle-a'',
               UpdateCall ''trust'' ''bundle-a''],
      faults = []\<rparr>
     = [UpdateCall ''trust'' ''bundle-a'']"
  by (simp add: run_simps)

section \<open>The update path\<close>



section \<open>The owned set after a cycle\<close>

lemma lookup_present:
  "lookup ns k c \<noteq> None \<longleftrightarrow> (\<exists>x \<in> set (objects c). has_key ns k x)"
  "(\<exists>y. lookup ns k c = Some y) \<longleftrightarrow> (\<exists>x \<in> set (objects c). has_key ns k x)"
  using lookup_None_iff [of ns k c] by auto

lemma checkConfigMap_objects: "objects (snd (checkConfigMap r b c)) = objects c"
  by (simp add: checkConfigMap_eq objects_logged)

lemma checkConfigMap_True:
  "fst (checkConfigMap r b c) \<Longrightarrow> lookup (TargetNamespace r) (reName (Filename b)) c \<noteq> None"
  by (auto simp: checkConfigMap_eq)

lemma createOrUpdate_success:
  assumes "createOrUpdateConfigMap r b c = (None, c')"
  shows "(lookup (TargetNamespace r) (reName (Filename b)) c = None \<and>
            objects c' = objects c @ [new_cm r b]) \<or>
         (\<exists>cm. lookup (TargetNamespace r) (reName (Filename b)) c = Some cm \<and>
            objects c' = map (\<lambda>x. if has_key (TargetNamespace r) (reName (Filename b)) x
                                then cm\<lparr>Data := (Data cm)(CAKey \<mapsto> Content b)\<rparr> else x)
                             (objects c))"
  using assms
  by (auto simp: createOrUpdate_eq Let_def client_Create_eq client_Update_eq new_cm_def
                 objects_logged lookup_logged
           split: option.splits if_splits dest: lookup_SomeD)

lemma new_cm_props:
  "is_owned r (new_cm r b)" "has_key (TargetNamespace r) (reName (Filename b)) (new_cm r b)"
  by (simp_all add: new_cm_def is_owned_def has_key_def)

lemma createOrUpdate_success_props:
  assumes ok: "createOrUpdateConfigMap r b c = (None, c')"
      and inv: "\<forall>x \<in> set (objects c). Namespace x = TargetNamespace r \<and> Name x \<in> N \<longrightarrow> is_owned r x"
      and n: "reName (Filename b) \<in> N"
  shows "(\<forall>x \<in> set (objects c'). Namespace x = TargetNamespace r \<and> Name x \<in> N \<longrightarrow> is_owned r x) \<and>
         lookup (TargetNamespace r) (reName (Filename b)) c' \<noteq> None \<and>
         (\<forall>ns k. lookup ns k c \<noteq> None \<longrightarrow> lookup ns k c' \<noteq> None)"
proof -
  let ?ns = "TargetNamespace r" and ?n = "reName (Filename b)"
  from createOrUpdate_success [OF ok] show ?thesis
  proof (elim disjE conjE exE)
    assume "lookup ?ns ?n c = None" and objs: "objects c' = objects c @ [new_cm r b]"
    show ?thesis
      using inv new_cm_props [of r b] by (auto simp: lookup_present objs)
  next
    fix cm :: ConfigMap
    let ?cm' = "cm\<lparr>Data := (Data cm)(CAKey \<mapsto> Content b)\<rparr>"
    assume lk: "lookup ?ns ?n c = Some cm"
      and objs: "objects c' = map (\<lambda>x. if has_key ?ns ?n x then ?cm' else x) (objects c)"
    from lookup_SomeD [OF lk] have cm: "Namespace cm = ?ns" "Name cm = ?n" "cm \<in> set (objects c)"
      by simp_all
    with inv n have "is_owned r cm" by auto
    then have own: "is_owned r ?cm'" by (simp add: is_owned_def)
    have key: "has_key ?ns ?n ?cm'" using cm by (simp add: has_key_def)
    have a: "\<forall>x \<in> set (objects c'). Namespace x = ?ns \<and> Name x \<in> N \<longrightarrow> is_owned r x"
      using inv own by (auto simp: objs)
    have c: "\<forall>ns k. lookup ns k c \<noteq> None \<longrightarrow> lookup ns k c' \<noteq> None"
    proof (intro allI impI)
      fix ns k assume "lookup ns k c \<noteq> None"
      then obtain x where x: "x \<in> set (objects c)" "has_key ns k x"
        by (auto simp: lookup_present)
      show "lookup ns k c' \<noteq> None"
      proof (cases "has_key ?ns ?n x")
        case True
        with x(2) have "has_key ns k ?cm'" using key by (simp add: has_key_def)
        moreover have "?cm' \<in> set (objects c')" using x(1) True by (force simp: objs)
        ultimately show ?thesis by (auto simp: lookup_present)
      next
        case False
        with x(1) have "x \<in> set (objects c')" by (force simp: objs)
        with x(2) show ?thesis by (auto simp: lookup_present)
      qed
    qed
    from c lk have b: "lookup ?ns ?n c' \<noteq> None" by simp
    from a b c show ?thesis by simp
  qed
qed

lemma converge_success_props:
  assumes "converge r F c = (None, c1)"
      and "\<forall>x \<in> set (objects c). Namespace x = TargetNamespace r \<and> Name x \<in> N \<longrightarrow> is_owned r x"
      and "reName ` Filename ` set F \<subseteq> N"
  shows "(\<forall>x \<in> set (objects c1). Namespace x = TargetNamespace r \<and> Name x \<in> N \<longrightarrow> is_owned r x) \<and>
         (\<forall>b \<in> set F. lookup (TargetNamespace r) (reName (Filename b)) c1 \<noteq> None) \<and>
         (\<forall>ns k. lookup ns k c \<noteq> None \<longrightarrow> lookup ns k c1 \<noteq> None)"
  using assms
proof (induction F arbitrary: c)
  case Nil
  then show ?case by simp
next
  case (Cons b F)
  let ?ns = "TargetNamespace r" and ?n = "reName (Filename b)"
  obtain ok c' where chk: "checkConfigMap r b c = (ok, c')" by (cases "checkConfigMap r b c")
  have objs': "objects c' = objects c" using checkConfigMap_objects [of r b c] chk by simp
  have lk': "lookup ns k c' = lookup ns k c" for ns k by (simp add: lookup_def objs')
  have inv': "\<forall>x \<in> set (objects c'). Namespace x = ?ns \<and> Name x \<in> N \<longrightarrow> is_owned r x"
    using Cons.prems(2) by (simp add: objs')
  have sub: "reName ` Filename ` set F \<subseteq> N" and n: "?n \<in> N" using Cons.prems(3) by auto
  obtain c'' where
    run: "converge r F c'' = (None, c1)" and
    inv'': "\<forall>x \<in> set (objects c''). Namespace x = ?ns \<and> Name x \<in> N \<longrightarrow> is_owned r x" and
    here: "lookup ?ns ?n c'' \<noteq> None" and
    mono: "\<forall>ns k. lookup ns k c \<noteq> None \<longrightarrow> lookup ns k c'' \<noteq> None"
  proof (cases ok)
    case True
    with chk Cons.prems(1) have "converge r F c' = (None, c1)" by simp
    moreover have "lookup ?ns ?n c' \<noteq> None"
      using checkConfigMap_True [of r b c] chk True by (simp add: lk')
    ultimately show ?thesis using that [of c'] inv' by (simp add: lk')
  next
    case False
    obtain res c'' where cu: "createOrUpdateConfigMap r b c' = (res, c'')"
      by (cases "createOrUpdateConfigMap r b c'")
    with chk False Cons.prems(1) have res: "res = None" and run: "converge r F c'' = (None, c1)"
      by (auto split: option.splits)
    from createOrUpdate_success_props [OF cu [unfolded res] inv' n] run
    show ?thesis using that [of c''] by (simp add: lk')
  qed
  from Cons.IH [OF run inv'' sub]
  have 1: "\<forall>x \<in> set (objects c1). Namespace x = ?ns \<and> Name x \<in> N \<longrightarrow> is_owned r x"
    and 2: "\<forall>b \<in> set F. lookup ?ns (reName (Filename b)) c1 \<noteq> None"
    and 3: "\<forall>ns k. lookup ns k c'' \<noteq> None \<longrightarrow> lookup ns k c1 \<noteq> None"
    by blast+
  from here 3 have "lookup ?ns ?n c1 \<noteq> None" by blast
  with 1 2 3 mono show ?case by simp
qed

lemma converge_covers:
  assumes "converge r F c = (None, c1)"
      and "\<forall>x \<in> set (objects c). Namespace x = TargetNamespace r \<and>
              Name x \<in> reName ` Filename ` set F \<longrightarrow> is_owned r x"
  shows "reName ` Filename ` set F \<subseteq> owned r c1"
proof
  fix n assume n: "n \<in> reName ` Filename ` set F"
  from converge_success_props [OF assms subset_refl]
  have inv: "\<forall>x \<in> set (objects c1). Namespace x = TargetNamespace r \<and>
                Name x \<in> reName ` Filename ` set F \<longrightarrow> is_owned r x"
    and ex: "\<forall>b \<in> set F. lookup (TargetNamespace r) (reName (Filename b)) c1 \<noteq> None"
    by blast+
  from n ex have "lookup (TargetNamespace r) n c1 \<noteq> None" by auto
  then obtain x where x: "x \<in> set (objects c1)" "has_key (TargetNamespace r) n x"
    by (auto simp: lookup_present)
  with inv n have "is_owned r x" by (auto simp: has_key_def)
  with x show "n \<in> owned r c1" by (force simp: owned_def has_key_def)
qed

lemma GetBundleConfigMaps_success:
  assumes "GetBundleConfigMaps r c = (Inr names, c')"
  shows "set names = owned r c \<and> objects c' = objects c"
  using assms
  by (auto simp: GetBundleConfigMaps_def client_List_eq owned_def is_owned_def objects_logged
           split: option.splits)

lemma DeleteBundleConfigMap_success:
  assumes "DeleteBundleConfigMap r k c = (None, c')"
  shows "objects c' = filter (\<lambda>x. \<not> has_key (TargetNamespace r) k x) (objects c)"
proof (cases "lookup (TargetNamespace r) k c")
  case None
  then have "\<forall>x \<in> set (objects c). \<not> has_key (TargetNamespace r) k x"
    by (simp add: lookup_None_iff)
  then have "filter (\<lambda>x. \<not> has_key (TargetNamespace r) k x) (objects c) = objects c"
    by (simp add: filter_id_conv)
  moreover have "objects c' = objects c"
    using assms None
    by (auto simp: DeleteBundleConfigMap_eq Let_def objects_logged split: option.splits)
  ultimately show ?thesis by simp
next
  case (Some cm)
  from lookup_SomeD [OF Some] have key: "Namespace cm = TargetNamespace r" "Name cm = k"
    by simp_all
  show ?thesis
    using assms Some key
    by (auto simp: DeleteBundleConfigMap_eq Let_def client_Delete_eq objects_logged lookup_logged
             split: option.splits if_splits)
qed

lemma delete_stale_success:
  "delete_stale r m ks c = (None, c') \<Longrightarrow>
   objects c' = filter (\<lambda>x. \<not> (Namespace x = TargetNamespace r \<and>
                                  Name x \<in> {k \<in> set ks. m k = Some False})) (objects c)"
proof (induction ks arbitrary: c)
  case Nil
  then show ?case by simp
next
  case (Cons k ks)
  show ?case
  proof (cases "m k = Some False")
    case False
    with Cons.prems have "delete_stale r m ks c = (None, c')" by simp
    from Cons.IH [OF this] False show ?thesis
      by (auto intro!: filter_cong)
  next
    case True
    obtain res c1 where d: "DeleteBundleConfigMap r k c = (res, c1)"
      by (cases "DeleteBundleConfigMap r k c")
    with True Cons.prems have res: "res = None" and rest: "delete_stale r m ks c1 = (None, c')"
      by (auto split: option.splits)
    from DeleteBundleConfigMap_success [OF d [unfolded res]]
    have c1: "objects c1 = filter (\<lambda>x. \<not> has_key (TargetNamespace r) k x) (objects c)" .
    from Cons.IH [OF rest] True show ?thesis
      unfolding c1 filter_filter
      by (auto intro!: filter_cong simp: has_key_def)
  qed
qed

lemma owned_filter:
  "objects c' = filter (\<lambda>x. \<not> (Namespace x = TargetNamespace r \<and> Name x \<in> S)) (objects c)
   \<Longrightarrow> owned r c' = owned r c - S"
  by (auto simp: owned_def is_owned_def)

lemma CleanUpConfigMaps_success:
  assumes "CleanUpConfigMaps range_order r F c1 = (None, c2)"
      and "\<forall>ks. set (range_order ks) = set ks"
  shows "owned r c2 = owned r c1 \<inter> reName ` Filename ` set F"
proof -
  obtain res c0 where g: "GetBundleConfigMaps r c1 = (res, c0)"
    by (cases "GetBundleConfigMaps r c1")
  with assms(1) obtain names where res: "res = Inr names"
    by (cases res) (auto simp: CleanUpConfigMaps_def)
  let ?m = "mark_fetched (mark_listed names) F"
  from GetBundleConfigMaps_success [OF g [unfolded res]]
  have names: "set names = owned r c1" and c0: "objects c0 = objects c1" by simp_all
  have "delete_stale r ?m (range_order (remdups names)) c0 = (None, c2)"
    using assms(1) g res by (simp add: CleanUpConfigMaps_def Let_def)
  from delete_stale_success [OF this]
  have "objects c2 = filter (\<lambda>x. \<not> (Namespace x = TargetNamespace r \<and>
            Name x \<in> {k \<in> set (range_order (remdups names)). ?m k = Some False})) (objects c1)"
    by (simp add: c0)
  moreover have "{k \<in> set (range_order (remdups names)). ?m k = Some False}
                   = owned r c1 - reName ` Filename ` set F"
    using assms(2) names by (auto simp: existingBundles_apply)
  ultimately have "owned r c2 = owned r c1 - (owned r c1 - reName ` Filename ` set F)"
    using owned_filter [of c2 r "owned r c1 - reName ` Filename ` set F" c1] by simp
  then show ?thesis by auto
qed

text \<open>
  C2, amended: take a cluster in which every ConfigMap of the target namespace whose name
  is the normalized name of a fetched bundle carries the ownership label (so it is when
  the namespace holds owned resources only). If \<open>converge\<close> and then
  \<open>CleanUpConfigMaps\<close> succeed on the same fetched set, then, whatever failures were
  injected on the way and in whatever order the reaper ranges over its map, the owned
  identifiers are exactly the normalized names of the fetched bundles.
\<close>

theorem C2_owned_set_after_cycle:
  assumes "converge r F c = (None, c1)"
      and "CleanUpConfigMaps range_order r F c1 = (None, c2)"
      and "\<forall>ks. set (range_order ks) = set ks"
      and "\<forall>x \<in> set (objects c). Namespace x = TargetNamespace r \<and>
              Name x \<in> reName ` Filename ` set F \<longrightarrow> is_owned r x"
  shows "owned r c2 = reName ` Filename ` set F"
  using CleanUpConfigMaps_success [OF assms(2,3)] converge_covers [OF assms(1,4)]
  by auto

text \<open>
  C2, as stated, fails: a ConfigMap \<open>bundle-a\<close> without the ownership label is in the
  target namespace when \<open>bundle-a.pem\<close> is fetched. The cycle updates its payload and
  succeeds, the reaper lists nothing, and the owned set is empty where the claim wants
  \<open>{bundle-a}\<close>.
\<close>

theorem C2_unowned_collision_counterexample:
  "converge trust [pem_file ''bundle-a.pem'' ''AAA''] (cluster_of [foreign_cm ''bundle-a'' ''OLD''] [])
     = (None, \<lparr>objects = [foreign_cm ''bundle-a'' ''AAA''],
               calls = [GetCall ''trust'' ''bundle-a'', GetCall ''trust'' ''bundle-a'',
                        UpdateCall ''trust'' ''bundle-a''],
               faults = []\<rparr>) \<and>
   CleanUpConfigMaps (\<lambda>ks. ks) trust [pem_file ''bundle-a.pem'' ''AAA'']
     \<lparr>objects = [foreign_cm ''bundle-a'' ''AAA''],
      calls = [GetCall ''trust'' ''bundle-a'', GetCall ''trust'' ''bundle-a'',
               UpdateCall ''trust'' ''bundle-a''],
      faults = []\<rparr>
     = (None, \<lparr>objects = [foreign_cm ''bundle-a'' ''AAA''],
               calls = [GetCall ''trust'' ''bundle-a'', GetCall ''trust'' ''bundle-a'',
                        UpdateCall ''trust'' ''bundle-a'',
                        ListCall ''trust'' ''app'' ''cabundle-operator''],
               faults = []\<rparr>) \<and>
   owned trust \<lparr>objects = [foreign_cm ''bundle-a'' ''AAA''],
               calls = [GetCall ''trust'' ''bundle-a'', GetCall ''trust'' ''bundle-a'',
                        UpdateCall ''trust'' ''bundle-a'',
                        ListCall ''trust'' ''app'' ''cabundle-operator''],
               faults = []\<rparr> = {} \<and>
   reName ` Filename ` set [pem_file ''bundle-a.pem'' ''AAA''] = {''bundle-a''}"
  by (simp add: sweep_simps)

theorem C2_owned_set_after_cycle_witness:
  "owned trust
     \<lparr>objects = [owned_cm ''bundle-a'' ''AAA'', owned_cm ''bundle-b'' ''BBB''],
      calls = [GetCall ''trust'' ''bundle-a'', GetCall ''trust'' ''bundle-a'',
               UpdateCall ''trust'' ''bundle-a'',
               GetCall ''trust'' ''bundle-b'', GetCall ''trust'' ''bundle-b'',
               CreateCall ''trust'' ''bundle-b'',
               ListCall ''trust'' ''app'' ''cabundle-operator'',
               GetCall ''trust'' ''bundle-c'', DeleteCall ''trust'' ''bundle-c''],
      faults = []\<rparr>
   = reName ` Filename ` set [pem_file ''bundle-a.pem'' ''AAA'', pem_file ''bundle-b.crt'' ''BBB'']"
proof -
  let ?F = "[pem_file ''bundle-a.pem'' ''AAA'', pem_file ''bundle-b.crt'' ''BBB'']"
  let ?c = "cluster_of [owned_cm ''bundle-c'' ''CCC'', owned_cm ''bundle-a'' ''OLD''] []"
  let ?c1 = "\<lparr>objects = [owned_cm ''bundle-c'' ''CCC'', owned_cm ''bundle-a'' ''AAA'',
                         owned_cm ''bundle-b'' ''BBB''],
              calls = [GetCall ''trust'' ''bundle-a'', GetCall ''trust'' ''bundle-a'',
                       UpdateCall ''trust'' ''bundle-a'',
                       GetCall ''trust'' ''bundle-b'', GetCall ''trust'' ''bundle-b'',
                       CreateCall ''trust'' ''bundle-b''],
              faults = []\<rparr>"
  let ?c2 = "\<lparr>objects = [owned_cm ''bundle-a'' ''AAA'', owned_cm ''bundle-b'' ''BBB''],
      calls = [GetCall ''trust'' ''bundle-a'', GetCall ''trust'' ''bundle-a'',
               UpdateCall ''trust'' ''bundle-a'',
               GetCall ''trust'' ''bundle-b'', GetCall ''trust'' ''bundle-b'',
               CreateCall ''trust'' ''bundle-b'',
               ListCall ''trust'' ''app'' ''cabundle-operator'',
               GetCall ''trust'' ''bundle-c'', DeleteCall ''trust'' ''bundle-c''],
      faults = []\<rparr>"
  have h1: "converge trust ?F ?c = (None, ?c1)"
    by (simp add: sweep_simps)
  have h2: "CleanUpConfigMaps (\<lambda>ks. ks) trust ?F ?c1 = (None, ?c2)"
    by (simp add: sweep_simps)
  have h3: "\<forall>ks :: string list. set ((\<lambda>ks. ks) ks) = set ks" by simp
  have h4: "\<forall>x \<in> set (objects ?c). Namespace x = TargetNamespace trust \<and>
              Name x \<in> reName ` Filename ` set ?F \<longrightarrow> is_owned trust x"
    by (simp add: sweep_simps)
  from C2_owned_set_after_cycle [where range_order = "\<lambda>ks. ks", OF h1 h2 h3 h4]
  show ?thesis .
qed

section \<open>The fetch is all or nothing\<close>

lemma download_files_prefix:
  "download_files env base n names acc = Inr results \<Longrightarrow>
   \<exists>more. results = acc @ more \<and> map Filename more = names"
proof (induction names arbitrary: n acc)
  case Nil
  then show ?case by simp
next
  case (Cons name rest)
  then obtain data where
    "download_files env base (Suc n) rest (acc @ [\<lparr>Filename = name, Content = data\<rparr>]) = Inr results"
    by (auto split: sum.splits)
  from Cons.IH [OF this] show ?case by auto
qed

lemma download_files_contents:
  "download_files env base n names acc = Inr results \<Longrightarrow>
   \<forall>i < length names. file_body env base (n + i) (names ! i) = Some (Content (results ! (length acc + i)))"
proof (induction names arbitrary: n acc)
  case Nil
  then show ?case by simp
next
  case (Cons name rest)
  then obtain data where
    body: "file_body env base n name = Some data" and
    run: "download_files env base (Suc n) rest (acc @ [\<lparr>Filename = name, Content = data\<rparr>]) = Inr results"
    by (auto simp: file_body_def split: sum.splits)
  from download_files_prefix [OF run] obtain more where
    "results = (acc @ [\<lparr>Filename = name, Content = data\<rparr>]) @ more" by blast
  then have here: "Content (results ! length acc) = data"
    by (simp add: nth_append)
  from Cons.IH [OF run]
  have later: "\<forall>i < length rest. file_body env base (Suc n + i) (rest ! i)
                 = Some (Content (results ! (Suc (length acc) + i)))"
    by simp
  show ?case
  proof (intro allI impI)
    fix i assume "i < length (name # rest)"
    then show "file_body env base (n + i) ((name # rest) ! i)
                 = Some (Content (results ! (length acc + i)))"
      using body here later by (cases i) auto
  qed
qed

lemma download_files_fails_iff:
  "(\<exists>err. download_files env base n names acc = Inl err) \<longleftrightarrow>
   (\<exists>i < length names. file_body env base (n + i) (names ! i) = None)"
proof (induction names arbitrary: n acc)
  case Nil
  then show ?case by simp
next
  case (Cons name rest)
  show ?case
  proof (cases "file_body env base n name")
    case None
    then have "\<exists>err. download_files env base n (name # rest) acc = Inl err"
      by (auto simp: file_body_def split: sum.splits)
    moreover from None have "\<exists>i < length (name # rest). file_body env base (n + i) ((name # rest) ! i) = None"
      by (intro exI [of _ 0]) simp
    ultimately show ?thesis by blast
  next
    case (Some data)
    then have step: "download_files env base n (name # rest) acc
                = download_files env base (Suc n) rest (acc @ [\<lparr>Filename = name, Content = data\<rparr>])"
      by (auto simp: file_body_def split: sum.splits)
    have "(\<exists>i < length (name # rest). file_body env base (n + i) ((name # rest) ! i) = None)
            \<longleftrightarrow> (\<exists>i < length rest. file_body env base (Suc n + i) (rest ! i) = None)"
      (is "?L \<longleftrightarrow> ?R")
    proof
      assume ?L
      then obtain i where i: "i < length (name # rest)"
          "file_body env base (n + i) ((name # rest) ! i) = None" by blast
      with Some obtain j where "i = Suc j" by (cases i) auto
      with i show ?R by (intro exI [of _ j]) simp
    next
      assume ?R
      then obtain j where "j < length rest" "file_body env base (Suc n + j) (rest ! j) = None"
        by blast
      then show ?L by (intro exI [of _ "Suc j"]) simp
    qed
    with Cons.IH [of "Suc n" "acc @ [\<lparr>Filename = name, Content = data\<rparr>]"] step
    show ?thesis by simp
  qed
qed

lemma DownloadPEMBundles_listing:
  "DownloadPEMBundles env baseURL =
     (if listing_failure env baseURL
      then (case DownloadPEMBundles env baseURL of Inl err \<Rightarrow> Inl err | Inr x \<Rightarrow> Inl (RequestError []))
      else download_files env baseURL 1 (discovered env baseURL) [])"
  by (auto simp: DownloadPEMBundles_def listing_failure_def discovered_def
           split: option.splits sum.splits)

lemma DownloadPEMBundles_fails_iff:
  "(\<exists>err. DownloadPEMBundles env baseURL = Inl err) \<longleftrightarrow>
     listing_failure env baseURL \<or>
     (\<exists>i < length (discovered env baseURL).
         file_body env baseURL (Suc i) (discovered env baseURL ! i) = None)"
proof (cases "listing_failure env baseURL")
  case True
  then have "\<exists>err. DownloadPEMBundles env baseURL = Inl err"
    by (auto simp: DownloadPEMBundles_def listing_failure_def split: option.splits sum.splits)
  with True show ?thesis by blast
next
  case False
  then have "DownloadPEMBundles env baseURL
               = download_files env baseURL 1 (discovered env baseURL) []"
    using DownloadPEMBundles_listing [of env baseURL] by simp
  with False download_files_fails_iff [of env baseURL 1 "discovered env baseURL" "[]"]
  show ?thesis by simp
qed

lemma DownloadPEMBundles_success:
  assumes "DownloadPEMBundles env baseURL = Inr results"
  shows "\<not> listing_failure env baseURL \<and>
         map Filename results = discovered env baseURL \<and>
         (\<forall>i < length (discovered env baseURL).
            file_body env baseURL (Suc i) (discovered env baseURL ! i)
              = Some (Content (results ! i)))"
proof -
  have nf: "\<not> listing_failure env baseURL"
    using assms DownloadPEMBundles_fails_iff [of env baseURL] by auto
  then have run: "download_files env baseURL 1 (discovered env baseURL) [] = Inr results"
    using DownloadPEMBundles_listing [of env baseURL] assms by simp
  from download_files_prefix [OF run] download_files_contents [OF run] nf
  show ?thesis by auto
qed


text \<open>
  C5, amended: \<open>DownloadPEMBundles\<close> returns either an error or the complete result.
  A result holds one record for every link discovered in the listing, in the order of
  discovery, each with the body downloaded for that link. When every per-file response
  that arrives has status 200, it fails exactly when the listing fails (the base location
  is malformed, the transfer fails, the status is not 200, the body cannot be read or
  parsed) or when the transfer or the read of one of the files fails.
\<close>

theorem C5_fetch_all_or_nothing:
  "(\<forall>results. DownloadPEMBundles env baseURL = Inr results \<longrightarrow>
       \<not> listing_failure env baseURL \<and>
       map Filename results = discovered env baseURL \<and>
       (\<forall>i < length (discovered env baseURL).
           file_body env baseURL (Suc i) (discovered env baseURL ! i)
             = Some (Content (results ! i)))) \<and>
   ((\<forall>i < length (discovered env baseURL).
        file_status_ok env baseURL (Suc i) (discovered env baseURL ! i)) \<longrightarrow>
      ((\<exists>err. DownloadPEMBundles env baseURL = Inl err) \<longleftrightarrow>
         listing_failure env baseURL \<or>
         (\<exists>i < length (discovered env baseURL).
             file_body env baseURL (Suc i) (discovered env baseURL ! i) = None)))"
  using DownloadPEMBundles_success [of env baseURL] DownloadPEMBundles_fails_iff [of env baseURL]
  by blast

lemma walk_example_doc: "walk example_doc = [''bundle-a.pem'', ''bundle-b.crt'']"
  by (simp add: example_doc_def HasSuffix_def)

lemmas fetch_simps =
  DownloadPEMBundles_def example_env_def walk_example_doc listing_failure_def discovered_def
  file_body_def file_status_ok_def

text \<open>
  C5, as stated, fails: the listing is checked against status 200, not against the 2xx
  range. A listing answered with 204 makes the fetch fail, although 204 is a 2xx status
  and nothing else goes wrong (with status 200 the same environment gives both bundles).
\<close>

theorem C5_status_204_counterexample:
  "DownloadPEMBundles (example_env 204 ''204 No Content'') ''http://ca.example''
     = Inl (StatusError ''failed to list bundles: 204 No Content'') \<and>
   DownloadPEMBundles (example_env 200 ''200 OK'') ''http://ca.example''
     = Inr [\<lparr>Filename = ''bundle-a.pem'', Content = ''AAA''\<rparr>,
            \<lparr>Filename = ''bundle-b.crt'', Content = ''BBB''\<rparr>]"
  by (simp add: fetch_simps)

theorem C5_fetch_all_or_nothing_witness:
  "DownloadPEMBundles (example_env 200 ''200 OK'') ''http://ca.example''
     = Inr [\<lparr>Filename = ''bundle-a.pem'', Content = ''AAA''\<rparr>,
            \<lparr>Filename = ''bundle-b.crt'', Content = ''BBB''\<rparr>] \<and>
   map Filename [\<lparr>Filename = ''bundle-a.pem'', Content = ''AAA''\<rparr>,
                 \<lparr>Filename = ''bundle-b.crt'', Content = ''BBB''\<rparr>]
     = discovered (example_env 200 ''200 OK'') ''http://ca.example'' \<and>
   \<not> listing_failure (example_env 200 ''200 OK'') ''http://ca.example'' \<and>
   listing_failure (example_env 404 ''404 Not Found'') ''http://ca.example'' \<and>
   (\<exists>err. DownloadPEMBundles (example_env 404 ''404 Not Found'') ''http://ca.example'' = Inl err)"
proof -
  let ?ok = "example_env 200 ''200 OK''" and ?bad = "example_env 404 ''404 Not Found''"
  let ?url = "''http://ca.example''"
  let ?res = "[\<lparr>Filename = ''bundle-a.pem'', Content = ''AAA''\<rparr>,
               \<lparr>Filename = ''bundle-b.crt'', Content = ''BBB''\<rparr>]"
  have run: "DownloadPEMBundles ?ok ?url = Inr ?res"
    by (simp add: fetch_simps)
  from C5_fetch_all_or_nothing [of ?ok ?url] run
  have ok: "\<not> listing_failure ?ok ?url \<and> map Filename ?res = discovered ?ok ?url"
    by blast
  have st: "\<forall>i < length (discovered ?bad ?url).
              file_status_ok ?bad ?url (Suc i) (discovered ?bad ?url ! i)"
    by (simp add: fetch_simps less_Suc_eq)
  have lf: "listing_failure ?bad ?url"
    by (simp add: fetch_simps)
  from C5_fetch_all_or_nothing [of ?bad ?url] st lf
  have "\<exists>err. DownloadPEMBundles ?bad ?url = Inl err"
    by blast
  with run ok lf show ?thesis by blast
qed

section \<open>The sweep stops at the first failure\<close>

text \<open>
  C3, amended: the sweep is fail-fast. When deleting a stale resource fails with a
  genuine error, \<open>CleanUpConfigMaps\<close> returns that error at once. The stale resources
  that the range visited before it have been deleted and are gone from the store,
  nothing else in the store has changed, the trace ends with the calls for the failing
  name, and the names after it in the order of the range are not attempted.
\<close>

theorem C3_reap_stops_at_first_failure:
  assumes "GetBundleConfigMaps r c = (Inr names, c0)"
      and "range_order (remdups names) = pre @ cmName # post"
      and "delete_stale r (mark_fetched (mark_listed names) bundles) pre c0 = (None, c1)"
      and "cmName \<in> set names"
      and "cmName \<notin> reName ` Filename ` set bundles"
      and "DeleteBundleConfigMap r cmName c1 = (Some err, c2)"
  shows "CleanUpConfigMaps range_order r bundles c = (Some err, c2) \<and>
         objects c2 =
           filter (\<lambda>x. \<not> (Namespace x = TargetNamespace r \<and>
                          Name x \<in> {k \<in> set pre. k \<in> set names \<and>
                                                k \<notin> reName ` Filename ` set bundles}))
                  (objects c) \<and>
         (\<forall>k \<in> set pre. k \<in> set names \<and> k \<notin> reName ` Filename ` set bundles \<longrightarrow>
            lookup (TargetNamespace r) k c2 = None) \<and>
         (calls c2 = calls c1 @ [GetCall (TargetNamespace r) cmName] \<or>
          calls c2 = calls c1 @ [GetCall (TargetNamespace r) cmName,
                                 DeleteCall (TargetNamespace r) cmName])"
proof -
  let ?m = "mark_fetched (mark_listed names) bundles"
  let ?S = "{k \<in> set pre. k \<in> set names \<and> k \<notin> reName ` Filename ` set bundles}"
  have stale: "?m cmName = Some False"
    using assms(4,5) by (simp add: existingBundles_apply)
  have "delete_stale r ?m (pre @ cmName # post) c0 = (Some err, c2)"
    using assms(3,6) stale by (simp add: delete_stale_append)
  then have run: "CleanUpConfigMaps range_order r bundles c = (Some err, c2)"
    using assms(1,2) by (simp add: CleanUpConfigMaps_def Let_def)
  have c0: "objects c0 = objects c"
    using GetBundleConfigMaps_success [OF assms(1)] by simp
  have S: "{k \<in> set pre. ?m k = Some False} = ?S"
    by (auto simp: existingBundles_apply)
  from delete_stale_success [OF assms(3)]
  have c1: "objects c1 = filter (\<lambda>x. \<not> (Namespace x = TargetNamespace r \<and> Name x \<in> ?S)) (objects c)"
    by (simp only: S c0)
  from DeleteBundleConfigMap_failure [OF assms(6)]
  have same: "objects c2 = objects c1"
    and tr: "calls c2 = calls c1 @ [GetCall (TargetNamespace r) cmName] \<or>
             calls c2 = calls c1 @ [GetCall (TargetNamespace r) cmName,
                                    DeleteCall (TargetNamespace r) cmName]"
    by simp_all
  have c2: "objects c2 = filter (\<lambda>x. \<not> (Namespace x = TargetNamespace r \<and> Name x \<in> ?S)) (objects c)"
    using same c1 by simp
  have gone: "\<forall>k \<in> set pre. k \<in> set names \<and> k \<notin> reName ` Filename ` set bundles \<longrightarrow>
                lookup (TargetNamespace r) k c2 = None"
    by (auto simp: lookup_None_iff c2 has_key_def)
  from run c2 gone tr show ?thesis by simp
qed

theorem C3_reap_stops_at_first_failure_witness:
  "CleanUpConfigMaps (\<lambda>ks. ks) trust [pem_file ''bundle-a.pem'' ''AAA'']
     (cluster_of [owned_cm ''bundle-a'' ''AAA'', owned_cm ''bundle-c'' ''CCC'',
                  owned_cm ''bundle-d'' ''DDD'', owned_cm ''bundle-e'' ''EEE'']
        [None, None, None, Some ''boom''])
   = (Some (Failure ''boom''),
      \<lparr>objects = [owned_cm ''bundle-a'' ''AAA'', owned_cm ''bundle-d'' ''DDD'',
                  owned_cm ''bundle-e'' ''EEE''],
       calls = [ListCall ''trust'' ''app'' ''cabundle-operator'',
                GetCall ''trust'' ''bundle-c'', DeleteCall ''trust'' ''bundle-c'',
                GetCall ''trust'' ''bundle-d''],
       faults = []\<rparr>) \<and>
   lookup ''trust'' ''bundle-c''
     \<lparr>objects = [owned_cm ''bundle-a'' ''AAA'', owned_cm ''bundle-d'' ''DDD'',
                 owned_cm ''bundle-e'' ''EEE''],
      calls = [ListCall ''trust'' ''app'' ''cabundle-operator'',
               GetCall ''trust'' ''bundle-c'', DeleteCall ''trust'' ''bundle-c'',
               GetCall ''trust'' ''bundle-d''],
      faults = []\<rparr> = None"
proof -
  let ?objs = "[owned_cm ''bundle-a'' ''AAA'', owned_cm ''bundle-c'' ''CCC'',
                owned_cm ''bundle-d'' ''DDD'', owned_cm ''bundle-e'' ''EEE'']"
  let ?left = "[owned_cm ''bundle-a'' ''AAA'', owned_cm ''bundle-d'' ''DDD'',
                owned_cm ''bundle-e'' ''EEE'']"
  let ?c = "cluster_of ?objs [None, None, None, Some ''boom'']"
  let ?cl = "\<lparr>objects = ?objs, calls = [ListCall ''trust'' ''app'' ''cabundle-operator''],
              faults = [None, None, Some ''boom'']\<rparr>"
  let ?c1 = "\<lparr>objects = ?left,
              calls = [ListCall ''trust'' ''app'' ''cabundle-operator'',
                       GetCall ''trust'' ''bundle-c'', DeleteCall ''trust'' ''bundle-c''],
              faults = [Some ''boom'']\<rparr>"
  let ?c2 = "\<lparr>objects = ?left,
              calls = [ListCall ''trust'' ''app'' ''cabundle-operator'',
                       GetCall ''trust'' ''bundle-c'', DeleteCall ''trust'' ''bundle-c'',
                       GetCall ''trust'' ''bundle-d''],
              faults = []\<rparr>"
  let ?names = "[''bundle-a'', ''bundle-c'', ''bundle-d'', ''bundle-e'']"
  let ?F = "[pem_file ''bundle-a.pem'' ''AAA'']"
  have h1: "GetBundleConfigMaps trust ?c = (Inr ?names, ?cl)"
    by (simp add: run_simps)
  have h2: "(\<lambda>ks. ks) (remdups ?names) = [''bundle-a'', ''bundle-c''] @ ''bundle-d'' # [''bundle-e'']"
    by simp
  have h3: "delete_stale trust (mark_fetched (mark_listed ?names) ?F) [''bundle-a'', ''bundle-c''] ?cl
              = (None, ?c1)"
    by (simp add: sweep_simps)
  have h4: "''bundle-d'' \<in> set ?names" by simp
  have h5: "''bundle-d'' \<notin> reName ` Filename ` set ?F"
    by (simp add: pem_file_def reName_examples)
  have h6: "DeleteBundleConfigMap trust ''bundle-d'' ?c1 = (Some (Failure ''boom''), ?c2)"
    by (simp add: run_simps)
  note th = C3_reap_stops_at_first_failure
              [where range_order = "\<lambda>ks. ks", OF h1 h2 h3 h4 h5 h6]
  from th have run: "CleanUpConfigMaps (\<lambda>ks. ks) trust ?F ?c = (Some (Failure ''boom''), ?c2)"
    by simp
  from th have "\<forall>k \<in> set [''bundle-a'', ''bundle-c'']. k \<in> set ?names \<and>
                  k \<notin> reName ` Filename ` set ?F \<longrightarrow> lookup (TargetNamespace trust) k ?c2 = None"
    by blast
  then have "lookup ''trust'' ''bundle-c'' ?c2 = None"
    by (simp add: pem_file_def reName_examples trust_def)
  with run show ?thesis by simp
qed

section \<open>A delete that reports not-found\<close>

lemma DeleteBundleConfigMap_racing_alone:
  "DeleteBundleConfigMap_racing (\<lambda>c. c) r name c = DeleteBundleConfigMap r name c"
  by (simp add: DeleteBundleConfigMap_racing_def DeleteBundleConfigMap_def)

lemma delete_stale_racing_alone:
  "delete_stale_racing nobody_else r m ks c = delete_stale r m ks c"
  by (induction ks arbitrary: c)
     (auto simp: nobody_else_def [abs_def] DeleteBundleConfigMap_racing_alone split: prod.splits option.splits)

lemma CleanUpConfigMaps_racing_alone:
  "CleanUpConfigMaps_racing nobody_else range_order r bundles c
     = CleanUpConfigMaps range_order r bundles c"
  by (simp add: CleanUpConfigMaps_racing_def CleanUpConfigMaps_def delete_stale_racing_alone
                Let_def
           split: prod.splits sum.splits)

lemmas race_simps =
  sweep_simps DeleteBundleConfigMap_racing_def CleanUpConfigMaps_racing_def client_Get_eq
  IgnoreNotFound_simps race_on_def removed_by_another_client_def

text \<open>
  C7 fails on the code: only the error of the lookup goes through
  \<open>client.IgnoreNotFound\<close>; the error of \<open>r.Delete\<close> is returned as it is. The
  stale resource \<open>bundle-c\<close> is there when the reaper looks it up and has been removed
  by another client when the delete call arrives: the delete reports not-found,
  \<open>DeleteBundleConfigMap\<close> returns that as an error, and \<open>CleanUpConfigMaps\<close> ends
  the sweep with it, before it comes to the stale \<open>bundle-d\<close>.
\<close>

theorem C7_not_found_from_delete_is_returned:
  "DeleteBundleConfigMap_racing (removed_by_another_client ''trust'' ''bundle-c'') trust ''bundle-c''
     (cluster_of [owned_cm ''bundle-c'' ''CCC'', owned_cm ''bundle-d'' ''DDD''] [])
   = (Some NotFound,
      \<lparr>objects = [owned_cm ''bundle-d'' ''DDD''],
       calls = [GetCall ''trust'' ''bundle-c'', DeleteCall ''trust'' ''bundle-c''],
       faults = []\<rparr>) \<and>
   CleanUpConfigMaps_racing (race_on ''trust'' ''bundle-c'') (\<lambda>ks. ks) trust []
     (cluster_of [owned_cm ''bundle-c'' ''CCC'', owned_cm ''bundle-d'' ''DDD''] [])
   = (Some NotFound,
      \<lparr>objects = [owned_cm ''bundle-d'' ''DDD''],
       calls = [ListCall ''trust'' ''app'' ''cabundle-operator'',
                GetCall ''trust'' ''bundle-c'', DeleteCall ''trust'' ''bundle-c''],
       faults = []\<rparr>)"
  by (simp add: race_simps)

section \<open>An unlabelled resource through the cycle\<close>









section \<open>Events of the periodic trigger\<close>

lemma genericEventChannel_eq:
  "genericEventChannel r st = (None, st\<lparr>eventCh := eventCh st @ [periodic_event r]\<rparr>)"
  by (simp add: genericEventChannel_def periodic_event_def Let_def)

lemma Start_loop_events:
  "eventCh (Start_loop r ws st)
     = eventCh st @ replicate (length (takeWhile (\<lambda>w. selected w = TickCase) ws)) (periodic_event r)"
proof (induction ws arbitrary: st)
  case Nil
  then show ?case by simp
next
  case (Cons w ws)
  show ?case
  proof (cases "selected w")
    case TickCase
    with Cons.IH [of "st\<lparr>eventCh := eventCh st @ [periodic_event r]\<rparr>"] show ?thesis
      by (simp add: genericEventChannel_eq replicate_app_Cons_same)
  next
    case DoneCase
    then show ?thesis by simp
  qed
qed

lemma Start_loop_done:
  "\<exists>w \<in> set ws. selected w = DoneCase \<Longrightarrow>
   returned (Start_loop r ws st) \<and> eventCh_closed (Start_loop r ws st) \<and>
   ticker_stopped (Start_loop r ws st) \<and>
   Start_loop r (ws @ later) st = Start_loop r ws st"
proof (induction ws arbitrary: st)
  case Nil
  then show ?case by simp
next
  case (Cons w ws)
  show ?case
  proof (cases "selected w")
    case TickCase
    with Cons.prems have "\<exists>w \<in> set ws. selected w = DoneCase" by auto
    from Cons.IH [OF this] TickCase show ?thesis
      by (simp add: genericEventChannel_eq)
  next
    case DoneCase
    then show ?thesis by simp
  qed
qed

lemma Start_loop_waiting:
  "\<forall>w \<in> set ws. selected w = TickCase \<Longrightarrow>
   returned (Start_loop r ws st) = returned st \<and>
   eventCh_closed (Start_loop r ws st) = eventCh_closed st \<and>
   ticker_stopped (Start_loop r ws st) = ticker_stopped st"
  by (induction ws arbitrary: st) (simp_all add: genericEventChannel_eq)

lemma not_done_ready_tick: "\<not> done_ready w \<Longrightarrow> selected w = TickCase"
  by (cases w) simp_all

lemma takeWhile_tick_split:
  "takeWhile (\<lambda>w. selected w = TickCase) ws
     = takeWhile (\<lambda>w. \<not> done_ready w) ws
       @ takeWhile (\<lambda>w. selected w = TickCase) (dropWhile (\<lambda>w. \<not> done_ready w) ws)"
  by (induction ws) (auto simp: not_done_ready_tick)

lemma takeWhile_before_cancel:
  "takeWhile (\<lambda>w. selected w = TickCase) (takeWhile (\<lambda>w. \<not> done_ready w) ws)
     = takeWhile (\<lambda>w. \<not> done_ready w) ws"
  by (induction ws) (auto simp: not_done_ready_tick)

lemma sent_after_cancel_eq:
  "sent_after_cancel r ws st
     = length (takeWhile (\<lambda>w. selected w = TickCase) (dropWhile (\<lambda>w. \<not> done_ready w) ws))"
proof -
  have "length (takeWhile (\<lambda>w. selected w = TickCase) ws)
          = length (takeWhile (\<lambda>w. \<not> done_ready w) ws)
            + length (takeWhile (\<lambda>w. selected w = TickCase) (dropWhile (\<lambda>w. \<not> done_ready w) ws))"
    using takeWhile_tick_split [of ws] by (metis length_append)
  then show ?thesis
    by (simp add: sent_after_cancel_def Start_loop_events takeWhile_before_cancel)
qed

text \<open>
  C8, amended: with a positive interval the trigger does not panic, and every tick that
  the loop takes enqueues exactly one synthetic event, nothing else does. Once the loop
  takes the cancellation case it returns: the timer is stopped, the queue is closed for
  writers, and whatever fires later changes nothing. As long as it has not taken the
  cancellation case it is neither stopped nor closed. The events enqueued after the
  cancellation are those of the ticks taken between the first wakeup at which the
  cancellation case is ready and the wakeup at which it is taken: one for each time the
  \<open>select\<close> picks the tick while both cases are ready.
\<close>

theorem C8_trigger_one_event_per_tick_taken:
  assumes "0 < interval r"
  shows "Start r ws st = Inr (Start_loop r ws st) \<and>
         eventCh (Start_loop r ws st)
           = eventCh st @ replicate (length (takeWhile (\<lambda>w. selected w = TickCase) ws))
                                     (periodic_event r) \<and>
         ((\<exists>w \<in> set ws. selected w = DoneCase) \<longrightarrow>
            returned (Start_loop r ws st) \<and> eventCh_closed (Start_loop r ws st) \<and>
            ticker_stopped (Start_loop r ws st) \<and>
            (\<forall>later. Start r (ws @ later) st = Start r ws st)) \<and>
         ((\<forall>w \<in> set ws. selected w = TickCase) \<longrightarrow>
            returned (Start_loop r ws st) = returned st \<and>
            eventCh_closed (Start_loop r ws st) = eventCh_closed st \<and>
            ticker_stopped (Start_loop r ws st) = ticker_stopped st) \<and>
         sent_after_cancel r ws st
           = length (takeWhile (\<lambda>w. selected w = TickCase)
                               (dropWhile (\<lambda>w. \<not> done_ready w) ws))"
  using assms Start_loop_events [of r ws st] Start_loop_done [of ws r st]
        Start_loop_waiting [of ws r st] sent_after_cancel_eq [of r ws st]
  by (simp add: Start_def)

lemmas trigger_simps =
  Start_def genericEventChannel_def every_minute_def idle_def periodic_event_def
  sent_after_cancel_def Let_def

text \<open>
  C8, as stated, fails: a tick and the cancellation are both ready at the second wakeup
  and the \<open>select\<close> takes the tick. An event is enqueued after the cancellation; the
  loop stops at the third wakeup.
\<close>

theorem C8_event_after_cancellation_counterexample:
  "allowed [TickReady, BothReady TickCase, DoneReady] \<and>
   Start every_minute [TickReady] idle
     = Inr \<lparr>eventCh = [periodic_event every_minute],
            eventCh_closed = False, ticker_stopped = False, returned = False\<rparr> \<and>
   Start every_minute [TickReady, BothReady TickCase, DoneReady] idle
     = Inr \<lparr>eventCh = [periodic_event every_minute, periodic_event every_minute],
            eventCh_closed = True, ticker_stopped = True, returned = True\<rparr> \<and>
   sent_after_cancel every_minute [TickReady, BothReady TickCase, DoneReady] idle = 1"
  by (simp add: trigger_simps)

theorem C8_trigger_one_event_per_tick_taken_witness:
  "Start every_minute [TickReady, TickReady, DoneReady, TickReady] idle
     = Inr \<lparr>eventCh = [periodic_event every_minute, periodic_event every_minute],
            eventCh_closed = True, ticker_stopped = True, returned = True\<rparr> \<and>
   Start every_minute ([TickReady, TickReady, DoneReady] @ [TickReady, TickReady]) idle
     = Start every_minute [TickReady, TickReady, DoneReady] idle \<and>
   sent_after_cancel every_minute [TickReady, TickReady, DoneReady, TickReady] idle = 0"
proof -
  let ?ws = "[TickReady, TickReady, DoneReady]"
  have h: "0 < interval every_minute" by (simp add: every_minute_def)
  have d: "\<exists>w \<in> set ?ws. selected w = DoneCase" by simp
  have run: "Start every_minute [TickReady, TickReady, DoneReady, TickReady] idle
     = Inr \<lparr>eventCh = [periodic_event every_minute, periodic_event every_minute],
            eventCh_closed = True, ticker_stopped = True, returned = True\<rparr>"
    by (simp add: trigger_simps)
  from C8_trigger_one_event_per_tick_taken [OF h, of ?ws idle] d
  have later: "\<forall>later. Start every_minute (?ws @ later) idle = Start every_minute ?ws idle"
    by blast
  from C8_trigger_one_event_per_tick_taken [OF h, of "[TickReady, TickReady, DoneReady, TickReady]" idle]
  have "sent_after_cancel every_minute [TickReady, TickReady, DoneReady, TickReady] idle
          = length (takeWhile (\<lambda>w. selected w = TickCase)
                      (dropWhile (\<lambda>w. \<not> done_ready w) [TickReady, TickReady, DoneReady, TickReady]))"
    by blast
  then have z: "sent_after_cancel every_minute [TickReady, TickReady, DoneReady, TickReady] idle = 0"
    by simp
  from run later z show ?thesis by blast
qed

end
